theory Spec2Isabelle
  imports Complex_Main "HOL-Library.Log_Nat"
begin

section \<open>Thumbnail composition: services/pillow\_utils.py\<close>

text \<open>
  The development follows the methods of \<open>ThumbnailComposer\<close>. Pillow itself is not
  part of the repository: fonts, text measurement, decoding and JPEG encoding enter as
  parameters, and images are kept as the history of the Pillow operations that made them,
  which fixes their size. In \<open>_process_logo\<close> the derived side of the logo depends on
  how Python rounds, so its float arithmetic is IEEE double arithmetic (\<open>double\<close>
  below). Elsewhere Python floats are read as exact rationals: with pixel counts as
  operands, double arithmetic can give another result there only where the exact value
  lies on a boundary (an integer under \<open>int(...)\<close>, equality in a comparison).
  A Python \<open>str\<close> is a \<open>string\<close> whose characters stand for code points below 256.
\<close>

subsection \<open>Exceptions\<close>

datatype error =
    ValueError string
  | ZeroDivisionError
  | UnboundLocalError string
  | OSError string

subsection \<open>\<open>str.split()\<close> and \<open>" ".join\<close>\<close>

text \<open>The code points below 256 that Python's \<open>str.isspace\<close> accepts:
  TAB, LF, VT, FF, CR, FS, GS, RS, US, SPACE, NEL and NBSP.\<close>

definition isspace :: "char \<Rightarrow> bool" where
  "isspace c = (c \<in> set [CHR 0x09, CHR 0x0A, CHR 0x0B, CHR 0x0C, CHR 0x0D,
                           CHR 0x1C, CHR 0x1D, CHR 0x1E, CHR 0x1F, CHR 0x20,
                           CHR 0x85, CHR 0xA0])"

text \<open>\<open>text.split()\<close> with no separator: maximal runs of non-whitespace characters.
  The first argument is the word being read.\<close>

fun split_from :: "string \<Rightarrow> string \<Rightarrow> string list" where
  "split_from word [] = (if word = [] then [] else [word])"
| "split_from word (c # cs) =
     (if isspace c
      then (if word = [] then split_from [] cs else word # split_from [] cs)
      else split_from (word @ [c]) cs)"

definition str_split :: "string \<Rightarrow> string list" where
  "str_split text = split_from [] text"

fun join_words :: "string list \<Rightarrow> string" where
  "join_words [] = []"
| "join_words [w] = w"
| "join_words (w # v # ws) = w @ '' '' @ join_words (v # ws)"

subsection \<open>\<open>_wrap_text_to_fit\<close>\<close>

text \<open>
  \<open>calculate_text_size text font\<close> is \<open>_calculate_text_size\<close>: the width and height
  of Pillow's bounding box of the text in the font. The loop over the words carries
  \<open>lines\<close> and \<open>current_line\<close>.
\<close>

definition wrap_step ::
  "(string \<Rightarrow> 'f \<Rightarrow> int \<times> int) \<Rightarrow> 'f \<Rightarrow> int \<Rightarrow> string list \<times> string \<Rightarrow> string
     \<Rightarrow> string list \<times> string" where
  "wrap_step calculate_text_size font max_width state word =
     (case state of (lines, current_line) \<Rightarrow>
        let test_line = current_line @ (if current_line \<noteq> [] then '' '' @ word else word);
            test_width = fst (calculate_text_size test_line font)
        in if test_width \<le> max_width
           then (lines, test_line)
           else if current_line \<noteq> []
                then (lines @ [current_line], word)
                else (lines @ [word], []))"

definition wrap_text_to_fit ::
  "(string \<Rightarrow> 'f \<Rightarrow> int \<times> int) \<Rightarrow> string \<Rightarrow> 'f \<Rightarrow> int \<Rightarrow> string list" where
  "wrap_text_to_fit calculate_text_size text font max_width =
     (case foldl (wrap_step calculate_text_size font max_width) ([], []) (str_split text) of
        (lines, current_line) \<Rightarrow>
          if current_line \<noteq> [] then lines @ [current_line] else lines)"

definition wordlike :: "string \<Rightarrow> bool" where
  "wordlike w = (w \<noteq> [] \<and> list_all (\<lambda>c. \<not> isspace c) w)"

text \<open>The loop invariant behind the word bookkeeping: the words read so far are the words
  of the closed lines followed by those of the open line.\<close>

definition words_kept :: "string list \<Rightarrow> string list \<times> string \<Rightarrow> bool" where
  "words_kept ws state =
     (case state of (lines, cur) \<Rightarrow>
        concat (map str_split lines) @ str_split cur = ws \<and> [] \<notin> set lines)"

text \<open>
  The same loop on lists of words instead of joined lines: \<open>group_step\<close> keeps the
  words of the closed lines and of the open line apart, so that properties of the lines
  can be stated word by word. \<open>group_inv\<close> is its loop invariant: each appended word
  fitted when it was appended (\<open>appended_fit\<close>), and each line was closed because the
  next word did not fit after it, or because it is one word that did not fit by itself
  (\<open>closed_when_full\<close>).
\<close>

definition group_step ::
  "(string \<Rightarrow> 'f \<Rightarrow> int \<times> int) \<Rightarrow> 'f \<Rightarrow> int \<Rightarrow> string list list \<times> string list
     \<Rightarrow> string \<Rightarrow> string list list \<times> string list" where
  "group_step cts font mw state word =
     (case state of (done, cur) \<Rightarrow>
        if fst (cts (join_words (cur @ [word])) font) \<le> mw then (done, cur @ [word])
        else if cur \<noteq> [] then (done @ [cur], [word])
        else (done @ [[word]], []))"

definition open_groups :: "string list list \<times> string list \<Rightarrow> string list list" where
  "open_groups state = (case state of (done, cur) \<Rightarrow> if cur \<noteq> [] then done @ [cur] else done)"

definition appended_fit ::
  "(string \<Rightarrow> 'f \<Rightarrow> int \<times> int) \<Rightarrow> 'f \<Rightarrow> int \<Rightarrow> string list \<Rightarrow> bool" where
  "appended_fit cts font mw g =
     (\<forall>k. 1 < k \<and> k \<le> length g \<longrightarrow> fst (cts (join_words (take k g)) font) \<le> mw)"

fun closed_when_full ::
  "(string \<Rightarrow> 'f \<Rightarrow> int \<times> int) \<Rightarrow> 'f \<Rightarrow> int \<Rightarrow> string list list \<Rightarrow> bool" where
  "closed_when_full cts font mw [] = True"
| "closed_when_full cts font mw [g] = True"
| "closed_when_full cts font mw (g # h # rest) =
     ((mw < fst (cts (join_words (g @ [hd h])) font)
        \<or> (length g = 1 \<and> mw < fst (cts (join_words g) font)))
      \<and> closed_when_full cts font mw (h # rest))"

definition group_inv ::
  "(string \<Rightarrow> 'f \<Rightarrow> int \<times> int) \<Rightarrow> 'f \<Rightarrow> int \<Rightarrow> string list \<Rightarrow> string list list \<times> string list \<Rightarrow> bool" where
  "group_inv cts font mw ws state =
     (case state of (done, cur) \<Rightarrow>
        concat done @ cur = ws
        \<and> [] \<notin> set done
        \<and> list_all (appended_fit cts font mw) (done @ [cur])
        \<and> closed_when_full cts font mw (open_groups (done, cur))
        \<and> (cur = [] \<and> done \<noteq> [] \<longrightarrow>
             length (last done) = 1 \<and> mw < fst (cts (join_words (last done)) font)))"

text \<open>A word wider than the limit is alone in its group. \<open>never_narrower\<close> is the
  property of Pillow's text box that the wrap relies on: a line is never measured
  narrower than either of two parts of it that a space joins.\<close>

definition oversize_alone ::
  "(string \<Rightarrow> 'f \<Rightarrow> int \<times> int) \<Rightarrow> 'f \<Rightarrow> int \<Rightarrow> string list \<Rightarrow> bool" where
  "oversize_alone cts font mw g = (\<forall>w \<in> set g. mw < fst (cts w font) \<longrightarrow> g = [w])"

definition never_narrower :: "(string \<Rightarrow> 'f \<Rightarrow> int \<times> int) \<Rightarrow> 'f \<Rightarrow> bool" where
  "never_narrower cts font =
     (\<forall>a b. fst (cts a font) \<le> fst (cts (a @ '' '' @ b) font)
          \<and> fst (cts b font) \<le> fst (cts (a @ '' '' @ b) font))"

text \<open>A fixed-pitch font for concrete runs: the font is its pixel size, every character
  is that many pixels wide and the box is that many pixels high.\<close>

definition fixed_pitch :: "string \<Rightarrow> int \<Rightarrow> int \<times> int" where
  "fixed_pitch text font = (font * int (length text), font)"


subsection \<open>\<open>_find_optimal_font_size\<close>\<close>

text \<open>
  \<open>get_font size\<close> is \<open>_get_font\<close>, \<open>None\<close> when no font could be loaded. The
  result is the triple \<open>(best_font, best_lines, best_size)\<close>; \<open>font_search\<close> is the
  \<open>while min_size <= max_size\<close> loop.
\<close>

type_synonym 'f layout = "'f option \<times> string list \<times> int"

function font_search ::
  "(int \<Rightarrow> 'f option) \<Rightarrow> (string \<Rightarrow> 'f \<Rightarrow> int \<times> int) \<Rightarrow> string \<Rightarrow> int \<Rightarrow> int
     \<Rightarrow> int \<Rightarrow> int \<Rightarrow> 'f layout \<Rightarrow> 'f layout" where
  "font_search get_font calculate_text_size text max_width max_height min_size max_size best =
     (if min_size \<le> max_size
      then (let size = (min_size + max_size) div 2 in
            case get_font size of
              None \<Rightarrow>
                font_search get_font calculate_text_size text max_width max_height
                  min_size (size - 1) best
            | Some font \<Rightarrow>
                (let lines = wrap_text_to_fit calculate_text_size text font max_width;
                     line_height = snd (calculate_text_size ''Ay'' font);
                     total_height = rat_of_nat (length lines) * rat_of_int line_height * 1.2
                 in if total_height \<le> rat_of_int max_height
                    then font_search get_font calculate_text_size text max_width max_height
                           (size + 1) max_size (Some font, lines, size)
                    else font_search get_font calculate_text_size text max_width max_height
                           min_size (size - 1) best))
      else best)"
  by pat_completeness auto
termination
  by (relation "measure (\<lambda>(gf, cts, t, mw, mh, lo, hi, b). nat (hi - lo + 1))") auto

declare font_search.simps [simp del]

definition find_optimal_font_size ::
  "(int \<Rightarrow> 'f option) \<Rightarrow> (string \<Rightarrow> 'f \<Rightarrow> int \<times> int) \<Rightarrow> string \<Rightarrow> int \<Rightarrow> int
     \<Rightarrow> 'f layout" where
  "find_optimal_font_size get_font calculate_text_size text max_width max_height =
     font_search get_font calculate_text_size text max_width max_height 20 120 (None, [], 20)"

text \<open>What one probe of the loop finds at a size: the font and the wrapped lines when the
  font loads and the stacked lines are no higher than \<open>max_height\<close>.\<close>

definition probe ::
  "(int \<Rightarrow> 'f option) \<Rightarrow> (string \<Rightarrow> 'f \<Rightarrow> int \<times> int) \<Rightarrow> string \<Rightarrow> int \<Rightarrow> int
     \<Rightarrow> int \<Rightarrow> ('f \<times> string list) option" where
  "probe get_font calculate_text_size text max_width max_height font_size =
     (case get_font font_size of
        None \<Rightarrow> None
      | Some font \<Rightarrow>
          (let lines = wrap_text_to_fit calculate_text_size text font max_width;
               line_height = snd (calculate_text_size ''Ay'' font)
           in if rat_of_nat (length lines) * rat_of_int line_height * 1.2 \<le> rat_of_int max_height
              then Some (font, lines) else None))"

definition fits ::
  "(int \<Rightarrow> 'f option) \<Rightarrow> (string \<Rightarrow> 'f \<Rightarrow> int \<times> int) \<Rightarrow> string \<Rightarrow> int \<Rightarrow> int
     \<Rightarrow> int \<Rightarrow> bool" where
  "fits get_font calculate_text_size text max_width max_height font_size =
     (probe get_font calculate_text_size text max_width max_height font_size \<noteq> None)"

text \<open>A font loader for concrete runs: the font of a size is the size itself.\<close>

definition any_size :: "int \<Rightarrow> int option" where
  "any_size font_size = Some font_size"

subsection \<open>Pillow images\<close>

text \<open>
  An image is the record of how Pillow made it: decoded from a file (with its mode and
  size), converted to a mode, resized, or cropped to a box \<open>(left, upper, right, lower)\<close>.
  \<open>Image.resize\<close> raises \<open>ValueError\<close> when a requested side is below 1;
  \<open>Image.crop\<close> raises it for a box whose right or lower edge lies before its left or
  upper edge, and otherwise pads what lies outside the image.
\<close>

type_synonym bytes = "char list"

datatype image =
    Decoded string int int
  | Converted string image
  | Resized int int image
  | Cropped int int int int image

fun image_size :: "image \<Rightarrow> int \<times> int" where
  "image_size (Decoded m w h) = (w, h)"
| "image_size (Converted m im) = image_size im"
| "image_size (Resized w h im) = (w, h)"
| "image_size (Cropped l u r b im) = (r - l, b - u)"

fun image_mode :: "image \<Rightarrow> string" where
  "image_mode (Decoded m w h) = m"
| "image_mode (Converted m im) = m"
| "image_mode (Resized w h im) = image_mode im"
| "image_mode (Cropped l u r b im) = image_mode im"

definition pil_resize :: "image \<Rightarrow> int \<times> int \<Rightarrow> error + image" where
  "pil_resize im new_size =
     (case new_size of (w, h) \<Rightarrow>
        if w < 1 \<or> h < 1 then Inl (ValueError ''height and width must be > 0'')
        else Inr (Resized w h im))"

definition pil_crop :: "image \<Rightarrow> int \<times> int \<times> int \<times> int \<Rightarrow> error + image" where
  "pil_crop im box =
     (case box of (l, u, r, b) \<Rightarrow>
        if r < l then Inl (ValueError ''Coordinate right is less than left'')
        else if b < u then Inl (ValueError ''Coordinate lower is less than upper'')
        else Inr (Cropped l u r b im))"

text \<open>Python's \<open>int(x)\<close> on a float truncates towards zero.\<close>

definition py_int :: "rat \<Rightarrow> int" where
  "py_int x = (if 0 \<le> x then \<lfloor>x\<rfloor> else \<lceil>x\<rceil>)"

subsection \<open>IEEE doubles\<close>

text \<open>
  A Python float is a double: a rational with a 53-bit significand. \<open>double x\<close> is the
  double nearest to \<open>x\<close>, ties going to the even significand, which is the result of a
  float literal and of one \<open>/\<close> or \<open>*\<close> on the exact operands. Overflow and subnormal
  numbers are left out: they are far from pixel counts.
  \<open>binary_exponent x\<close>, for positive \<open>x\<close>, is the \<open>e\<close> with \<open>2 ^ e \<le> x < 2 ^ (e + 1)\<close>.
\<close>

definition binary_exponent :: "rat \<Rightarrow> int" where
  "binary_exponent x =
     (case quotient_of x of (a, b) \<Rightarrow>
        let d = bitlen a - bitlen b
        in if 2 powi d \<le> x then d else d - 1)"

definition round_half_even :: "rat \<Rightarrow> int" where
  "round_half_even q =
     (let f = \<lfloor>q\<rfloor>; r = q - rat_of_int f
      in if r < 1 / 2 then f
         else if 1 / 2 < r then f + 1
         else if even f then f else f + 1)"

definition double :: "rat \<Rightarrow> rat" where
  "double x =
     (if x = 0 then 0
      else let ulp = 2 powi (binary_exponent \<bar>x\<bar> - 52)
           in sgn x * rat_of_int (round_half_even (\<bar>x\<bar> / ulp)) * ulp)"

subsection \<open>\<open>ThumbnailComposer.__init__\<close>\<close>

definition canvas_width :: int where
  "canvas_width = 1280"

definition canvas_height :: int where
  "canvas_height = 720"

definition text_area_width :: int where
  "text_area_width = py_int (rat_of_int canvas_width * 0.45)"

definition text_margin_left :: int where
  "text_margin_left = 40"

definition text_margin_top :: int where
  "text_margin_top = 60"

definition logo_max_width :: int where
  "logo_max_width = py_int (double (rat_of_int canvas_width * double 0.18))"

definition logo_margin :: int where
  "logo_margin = 30"

subsection \<open>\<open>_resize_background_to_canvas\<close>\<close>

definition resize_background_to_canvas :: "image \<Rightarrow> error + image" where
  "resize_background_to_canvas background =
     (case image_size background of (bg_width, bg_height) \<Rightarrow>
        if bg_height = 0 then Inl ZeroDivisionError
        else
          let target_ratio = rat_of_int canvas_width / rat_of_int canvas_height;
              bg_ratio = rat_of_int bg_width / rat_of_int bg_height
          in if \<bar>bg_ratio - target_ratio\<bar> < 0.01
             then pil_resize background (canvas_width, canvas_height)
             else if bg_ratio > target_ratio
             then (let new_height = canvas_height;
                       new_width = py_int (rat_of_int bg_height * target_ratio)
                   in case pil_resize background (new_width, new_height) of
                        Inl e \<Rightarrow> Inl e
                      | Inr scaled \<Rightarrow>
                          (let left = (new_width - canvas_width) div 2
                           in pil_crop scaled (left, 0, left + canvas_width, canvas_height)))
             else (let new_width = canvas_width;
                       new_height = py_int (rat_of_int bg_width / target_ratio)
                   in case pil_resize background (new_width, new_height) of
                        Inl e \<Rightarrow> Inl e
                      | Inr scaled \<Rightarrow>
                          (let top = (new_height - canvas_height) div 2
                           in pil_crop scaled (0, top, canvas_width, top + canvas_height))))"

subsection \<open>\<open>_process_logo\<close>\<close>

text \<open>
  \<open>image_open\<close> is \<open>Image.open(BytesIO(logo_data))\<close> and \<open>image_convert\<close> is
  \<open>logo.convert\<close>, which is where Pillow decodes the pixels; either may raise. Both
  branches of the source's mode test call \<open>logo.convert('RGBA')\<close>.
  \<open>process_logo_try\<close> is the body of the \<open>try\<close> block, \<open>process_logo\<close> the
  method with its \<open>except Exception: return None\<close>.
\<close>

definition process_logo_try ::
  "(bytes \<Rightarrow> error + image) \<Rightarrow> (image \<Rightarrow> string \<Rightarrow> error + image) \<Rightarrow> bytes \<Rightarrow> error + image" where
  "process_logo_try image_open image_convert logo_data =
     (case image_open logo_data of
        Inl e \<Rightarrow> Inl e
      | Inr opened \<Rightarrow>
          (case (if image_mode opened \<noteq> ''RGBA'' then image_convert opened ''RGBA''
                 else Inr opened) of
             Inl e \<Rightarrow> Inl e
           | Inr logo \<Rightarrow>
               (case image_size logo of (logo_width, logo_height) \<Rightarrow>
                  if logo_height = 0 then Inl ZeroDivisionError
                  else
                    let aspect_ratio = double (rat_of_int logo_width / rat_of_int logo_height)
                    in if logo_width > logo_height
                       then (let new_width = min logo_max_width logo_width
                             in if aspect_ratio = 0 then Inl ZeroDivisionError
                                else pil_resize logo
                                       (new_width,
                                        py_int (double (rat_of_int new_width / aspect_ratio))))
                       else (let max_height =
                                   py_int (double (rat_of_int canvas_height * double 0.15));
                                 new_height = min max_height logo_height;
                                 new_width =
                                   py_int (double (rat_of_int new_height * aspect_ratio))
                             in pil_resize logo (new_width, new_height)))))"

definition process_logo ::
  "(bytes \<Rightarrow> error + image) \<Rightarrow> (image \<Rightarrow> string \<Rightarrow> error + image) \<Rightarrow> bytes \<Rightarrow> image option" where
  "process_logo image_open image_convert logo_data =
     (case process_logo_try image_open image_convert logo_data of
        Inl e \<Rightarrow> None
      | Inr logo_resized \<Rightarrow> Some logo_resized)"

subsection \<open>Drawing\<close>

text \<open>The canvas is the normalised background together with the drawing calls made on
  it, in order.\<close>

datatype 'f draw_op =
    DrawText int int string 'f string
  | DrawRectangle int int int int string
  | Paste image int int

record 'f canvas =
  base :: image
  drawn :: "'f draw_op list"

definition draw_text_with_effects ::
  "'f canvas \<Rightarrow> int \<times> int \<Rightarrow> string \<Rightarrow> 'f \<Rightarrow> string \<Rightarrow> string \<Rightarrow> int \<Rightarrow> 'f canvas" where
  "draw_text_with_effects draw position text font fill_color stroke_color stroke_width =
     (case position of (x, y) \<Rightarrow>
        draw\<lparr>drawn := drawn draw
          @ concat (map (\<lambda>dx. concat (map (\<lambda>dy.
                if dx = 0 \<and> dy = 0 then []
                else [DrawText (x + dx) (y + dy) text font stroke_color])
              [- stroke_width .. stroke_width]))
            [- stroke_width .. stroke_width])
          @ [DrawText x y text font fill_color]\<rparr>)"

definition add_accent_bar :: "'f canvas \<Rightarrow> int \<Rightarrow> string \<Rightarrow> 'f canvas" where
  "add_accent_bar draw text_y accent_color =
     (let bar_height = 8; bar_width = 200; bar_x = text_margin_left; bar_y = text_y - 25
      in draw\<lparr>drawn := drawn draw
           @ [DrawRectangle bar_x bar_y (bar_x + bar_width) (bar_y + bar_height) accent_color]\<rparr>)"

definition add_logo_overlay :: "'f canvas \<Rightarrow> image \<Rightarrow> 'f canvas" where
  "add_logo_overlay canvas logo =
     (let logo_x = canvas_width - fst (image_size logo) - logo_margin;
          logo_y = canvas_height - snd (image_size logo) - logo_margin
      in canvas\<lparr>drawn := drawn canvas @ [Paste logo logo_x logo_y]\<rparr>)"

subsection \<open>\<open>_optimize_jpeg_size\<close>\<close>

text \<open>
  \<open>save quality\<close> is the JPEG that \<open>image.save\<close> writes for the canvas at that quality.
  The loop carries the last \<open>jpeg_data\<close>; leaving the loop without ever entering it
  reads an unbound local. The step of 5 is the literal of the source.
\<close>

function optimize_loop ::
  "(int \<Rightarrow> bytes) \<Rightarrow> int \<Rightarrow> int \<Rightarrow> int \<Rightarrow> bytes option \<Rightarrow> error + bytes" where
  "optimize_loop save max_size_bytes min_quality quality last_data =
     (if quality \<ge> min_quality
      then (let jpeg_data = save quality;
                file_size = int (length jpeg_data)
            in if file_size \<le> max_size_bytes
               then Inr jpeg_data
               else optimize_loop save max_size_bytes min_quality (quality - 5) (Some jpeg_data))
      else (case last_data of
              None \<Rightarrow> Inl (UnboundLocalError ''file_size'')
            | Some jpeg_data \<Rightarrow> Inr jpeg_data))"
  by pat_completeness auto
termination
  by (relation "measure (\<lambda>(s, m, lo, q, l). nat (q - lo + 1))") auto

declare optimize_loop.simps [simp del]

record settings =
  jpeg_quality_start :: int
  jpeg_quality_min :: int
  max_file_size_mb :: int

definition max_file_size_bytes :: "settings \<Rightarrow> int" where
  "max_file_size_bytes s = max_file_size_mb s * 1024 * 1024"

text \<open>The defaults of \<open>Settings\<close>.\<close>

definition default_settings :: settings where
  "default_settings = \<lparr>jpeg_quality_start = 92, jpeg_quality_min = 76, max_file_size_mb = 2\<rparr>"

definition optimize_jpeg_size :: "settings \<Rightarrow> (int \<Rightarrow> bytes) \<Rightarrow> int \<Rightarrow> error + bytes" where
  "optimize_jpeg_size s save max_size_bytes =
     optimize_loop save max_size_bytes (jpeg_quality_min s) (jpeg_quality_start s) None"

subsection \<open>\<open>compose_thumbnail\<close>\<close>

text \<open>
  What the method takes from outside the class: fonts and their metrics, the decoder of
  the logo, the JPEG encoder of a canvas, and the clock that names the file when no
  request id is given. The result is the file name and the bytes written.
\<close>

record 'f pillow =
  font_loader :: "int \<Rightarrow> 'f option"
  text_measure :: "string \<Rightarrow> 'f \<Rightarrow> int \<times> int"
  opener :: "bytes \<Rightarrow> error + image"
  converter :: "image \<Rightarrow> string \<Rightarrow> error + image"
  encoder :: "'f canvas \<Rightarrow> int \<Rightarrow> bytes"
  clock :: string

fun draw_lines :: "'f canvas \<Rightarrow> 'f \<Rightarrow> int \<Rightarrow> int \<Rightarrow> string list \<Rightarrow> 'f canvas" where
  "draw_lines draw font line_height current_y [] = draw"
| "draw_lines draw font line_height current_y (line # text_lines) =
     draw_lines
       (draw_text_with_effects draw (text_margin_left, current_y) line font
          ''#FFFFFF'' ''#000000'' 6)
       font line_height (current_y + line_height) text_lines"

text \<open>Step 4 of the method: \<open>if logo_image:\<close> is false for \<open>None\<close> and for
  empty bytes, \<open>if logo:\<close> is false when \<open>_process_logo\<close> returned \<open>None\<close>.\<close>

definition add_logo_if_provided :: "'f pillow \<Rightarrow> 'f canvas \<Rightarrow> bytes option \<Rightarrow> 'f canvas" where
  "add_logo_if_provided pil canvas logo_image =
     (case logo_image of
        None \<Rightarrow> canvas
      | Some logo_data \<Rightarrow>
          if logo_data = [] then canvas
          else (case process_logo (opener pil) (converter pil) logo_data of
                  None \<Rightarrow> canvas
                | Some logo \<Rightarrow> add_logo_overlay canvas logo))"

definition compose_thumbnail ::
  "settings \<Rightarrow> 'f pillow \<Rightarrow> image \<Rightarrow> string \<Rightarrow> string \<Rightarrow> bytes option \<Rightarrow> string option
     \<Rightarrow> error + string \<times> bytes" where
  "compose_thumbnail s pil background_image title accent_color logo_image request_id =
     (case resize_background_to_canvas background_image of
        Inl e \<Rightarrow> Inl e
      | Inr resized \<Rightarrow>
          (let canvas = \<lparr>base = resized, drawn = []\<rparr>;
               text_area_height = canvas_height - text_margin_top * 2
           in case find_optimal_font_size (font_loader pil) (text_measure pil) title
                     text_area_width text_area_height of
                (best_font, text_lines, font_size) \<Rightarrow>
                  (case best_font of
                     None \<Rightarrow> Inl (ValueError ''Could not fit text in available space'')
                   | Some font \<Rightarrow>
                       if text_lines = []
                       then Inl (ValueError ''Could not fit text in available space'')
                       else
                         (let line_height = py_int (rat_of_int font_size * 1.2);
                              total_text_height = int (length text_lines) * line_height;
                              text_start_y =
                                text_margin_top + (text_area_height - total_text_height) div 2;
                              canvas1 = add_accent_bar canvas text_start_y accent_color;
                              canvas2 = draw_lines canvas1 font line_height text_start_y text_lines;
                              canvas3 = add_logo_if_provided pil canvas2 logo_image;
                              timestamp =
                                (case request_id of
                                   None \<Rightarrow> clock pil
                                 | Some r \<Rightarrow> if r = [] then clock pil else r);
                              filename = timestamp @ ''_thumbnail.jpg''
                          in case optimize_jpeg_size s (encoder pil canvas3)
                                    (max_file_size_bytes s) of
                               Inl e \<Rightarrow> Inl e
                             | Inr jpeg_data \<Rightarrow> Inr (filename, jpeg_data)))))"

subsection \<open>Concrete inputs\<close>

text \<open>A title of 26 words of 15 characters; a font whose strike at size 100 is a
  10-pixel bitmap; an encoder whose output has as many bytes as the quality asked for, so
  that a lower quality is never larger; and a Pillow that decodes one logo file, a
  276 \<times> 126 palette image, and rejects all other bytes.\<close>

definition long_title :: string where
  "long_title = concat (replicate 26 ''thumbnail-title '')"

definition uneven_pitch :: "string \<Rightarrow> int \<Rightarrow> int \<times> int" where
  "uneven_pitch text font = (font * int (length text), if font = 100 then 10 else font)"

definition linear_encoder :: "int \<Rightarrow> bytes" where
  "linear_encoder quality = replicate (nat quality) (CHR ''x'')"

definition toy_open :: "bytes \<Rightarrow> error + image" where
  "toy_open logo_data =
     (if logo_data = ''logo.png'' then Inr (Decoded ''P'' 276 126)
      else Inl (OSError ''cannot identify image file''))"

definition toy_convert :: "image \<Rightarrow> string \<Rightarrow> error + image" where
  "toy_convert im m = Inr (Converted m im)"

definition toy_pillow :: "int pillow" where
  "toy_pillow = \<lparr>font_loader = any_size, text_measure = fixed_pitch,
      opener = toy_open, converter = toy_convert,
      encoder = (\<lambda>c. linear_encoder),
      clock = ''2026-01-01_000000''\<rparr>"


section \<open>Properties\<close>

subsection \<open>Splitting and joining\<close>

lemma isspace_space: "isspace (CHR '' '')"
  by (simp add: isspace_def)

lemma split_from_space:
  "isspace c \<Longrightarrow> split_from w (a @ c # b) = split_from w a @ split_from [] b"
  by (induction a arbitrary: w) simp_all

lemma split_from_no_space:
  "list_all (\<lambda>c. \<not> isspace c) s \<Longrightarrow> split_from w s = (if w @ s = [] then [] else [w @ s])"
  by (induction s arbitrary: w) simp_all

lemma split_from_wordlike:
  "list_all (\<lambda>c. \<not> isspace c) w \<Longrightarrow> list_all wordlike (split_from w s)"
proof (induction s arbitrary: w)
  case Nil
  then show ?case by (simp add: wordlike_def)
next
  case (Cons c s)
  show ?case
  proof (cases "isspace c")
    case True
    have rest: "list_all wordlike (split_from [] s)"
      by (rule Cons.IH) simp
    from Cons.prems have "w \<noteq> [] \<Longrightarrow> wordlike w"
      by (simp add: wordlike_def)
    with True rest show ?thesis
      by simp
  next
    case False
    with Cons.prems have "list_all (\<lambda>c. \<not> isspace c) (w @ [c])" by simp
    from Cons.IH [OF this] False show ?thesis by simp
  qed
qed

lemma str_split_wordlike: "list_all wordlike (str_split text)"
  unfolding str_split_def by (rule split_from_wordlike) simp

lemma str_split_word: "wordlike w \<Longrightarrow> str_split w = [w]"
  by (simp add: str_split_def wordlike_def split_from_no_space)

lemma str_split_append_word:
  "wordlike w \<Longrightarrow> str_split (line @ CHR '' '' # w) = str_split line @ [w]"
  using split_from_space [OF isspace_space, of "[]" line w]
  by (simp add: str_split_def wordlike_def split_from_no_space)

lemma str_split_Nil: "str_split [] = []"
  by (simp add: str_split_def)

subsection \<open>The wrap keeps the words\<close>

lemma wrap_step_words_kept:
  assumes "wordlike w" and "words_kept ws state"
  shows "words_kept (ws @ [w]) (wrap_step cts font mw state w)"
proof -
  obtain lines cur where st: "state = (lines, cur)" by (cases state)
  from assms(1) have "w \<noteq> []" by (simp add: wordlike_def)
  with assms st show ?thesis
    by (auto simp: words_kept_def wrap_step_def Let_def str_split_word str_split_append_word
        str_split_Nil)
qed

lemma wrap_fold_words_kept:
  "list_all wordlike words \<Longrightarrow> words_kept ws state \<Longrightarrow>
   words_kept (ws @ words) (foldl (wrap_step cts font mw) state words)"
proof (induction words arbitrary: ws state)
  case Nil
  then show ?case by simp
next
  case (Cons w words)
  from Cons.prems have "wordlike w" and rest: "list_all wordlike words" by simp_all
  then have "words_kept (ws @ [w]) (wrap_step cts font mw state w)"
    using Cons.prems(2) by (simp add: wrap_step_words_kept)
  from Cons.IH [OF rest this] show ?case by simp
qed

text \<open>
  Claim C10. For every text, font and maximum width, splitting the lines that
  \<open>_wrap_text_to_fit\<close> returns at whitespace and concatenating the results, in line
  order, gives exactly the words of \<open>text.split()\<close>: none dropped, duplicated or
  reordered. No returned line is empty.
\<close>

theorem wrap_keeps_words:
  "concat (map str_split (wrap_text_to_fit calculate_text_size text font max_width)) = str_split text
   \<and> [] \<notin> set (wrap_text_to_fit calculate_text_size text font max_width)"
proof -
  have "words_kept [] ([], [])"
    by (simp add: words_kept_def str_split_Nil)
  from wrap_fold_words_kept [OF str_split_wordlike this]
  have "words_kept (str_split text)
          (foldl (wrap_step calculate_text_size font max_width) ([], []) (str_split text))"
    by simp
  then show ?thesis
    by (auto simp: words_kept_def wrap_text_to_fit_def str_split_Nil split: prod.splits)
qed

theorem wrap_keeps_words_witness:
  "concat (map str_split (wrap_text_to_fit fixed_pitch ''aaa  bb c dddddddd e'' 1 5))
     = [''aaa'', ''bb'', ''c'', ''dddddddd'', ''e'']
   \<and> [] \<notin> set (wrap_text_to_fit fixed_pitch ''aaa  bb c dddddddd e'' 1 5)"
  using wrap_keeps_words [of fixed_pitch "''aaa  bb c dddddddd e''" 1 5]
  by (simp add: str_split_def isspace_def)

subsection \<open>The wrap is greedy\<close>

lemma join_words_snoc: "g \<noteq> [] \<Longrightarrow> join_words (g @ [w]) = join_words g @ '' '' @ w"
  by (induction g rule: join_words.induct) simp_all

lemma join_words_Nil_iff: "[] \<notin> set g \<Longrightarrow> (join_words g = []) = (g = [])"
  by (induction g rule: join_words.induct) auto

lemma closed_when_full_snoc:
  "G \<noteq> [] \<Longrightarrow>
   closed_when_full cts font mw (G @ [h]) =
     (closed_when_full cts font mw G
      \<and> (mw < fst (cts (join_words (last G @ [hd h])) font)
          \<or> (length (last G) = 1 \<and> mw < fst (cts (join_words (last G)) font))))"
  by (induction cts font mw G rule: closed_when_full.induct) auto

lemma closed_when_full_grow:
  "g \<noteq> [] \<Longrightarrow>
   closed_when_full cts font mw (G @ [g @ [w]]) = closed_when_full cts font mw (G @ [g])"
  by (cases "G = []") (simp_all add: closed_when_full_snoc)

lemma appended_fit_single: "appended_fit cts font mw [w]"
  by (simp add: appended_fit_def)

lemma appended_fit_Nil: "appended_fit cts font mw []"
  by (simp add: appended_fit_def)

lemma appended_fit_snoc:
  assumes "appended_fit cts font mw g" and "fst (cts (join_words (g @ [w])) font) \<le> mw"
  shows "appended_fit cts font mw (g @ [w])"
  unfolding appended_fit_def
proof (intro allI impI)
  fix k assume k: "1 < k \<and> k \<le> length (g @ [w])"
  show "fst (cts (join_words (take k (g @ [w]))) font) \<le> mw"
  proof (cases "k \<le> length g")
    case True
    with k assms(1) show ?thesis by (simp add: appended_fit_def)
  next
    case False
    with k have "take k (g @ [w]) = g @ [w]" by simp
    with assms(2) show ?thesis by simp
  qed
qed

lemma group_step_inv:
  assumes "group_inv cts font mw ws state"
  shows "group_inv cts font mw (ws @ [w]) (group_step cts font mw state w)"
proof -
  obtain G g where st: "state = (G, g)" by (cases state)
  from assms st have
    words: "concat G @ g = ws" and ne: "[] \<notin> set G"
    and fitG: "list_all (appended_fit cts font mw) G" and fitg: "appended_fit cts font mw g"
    and full: "closed_when_full cts font mw (open_groups (G, g))"
    and forced: "g = [] \<and> G \<noteq> [] \<longrightarrow>
             length (last G) = 1 \<and> mw < fst (cts (join_words (last G)) font)"
    by (simp_all add: group_inv_def)
  show ?thesis
  proof (cases "fst (cts (join_words (g @ [w])) font) \<le> mw")
    case True
    then have step: "group_step cts font mw state w = (G, g @ [w])"
      by (simp add: group_step_def st)
    have "closed_when_full cts font mw (G @ [g @ [w]])"
    proof (cases "g = []")
      case False
      with full show ?thesis by (simp add: closed_when_full_grow open_groups_def)
    next
      case gnil: True
      show ?thesis
      proof (cases "G = []")
        case True
        then show ?thesis by simp
      next
        case False
        with gnil full forced show ?thesis
          by (simp add: closed_when_full_snoc open_groups_def)
      qed
    qed
    with words ne fitG appended_fit_snoc [OF fitg True] show ?thesis
      by (simp add: step group_inv_def open_groups_def)
  next
    case nofit: False
    show ?thesis
    proof (cases "g = []")
      case False
      with nofit have step: "group_step cts font mw state w = (G @ [g], [w])"
        by (simp add: group_step_def st)
      from False full nofit have "closed_when_full cts font mw ((G @ [g]) @ [[w]])"
        by (subst closed_when_full_snoc) (simp_all add: open_groups_def)
      with words ne fitG fitg False show ?thesis
        by (simp add: step group_inv_def open_groups_def appended_fit_single)
    next
      case True
      with nofit have step: "group_step cts font mw state w = (G @ [[w]], [])"
        by (simp add: group_step_def st)
      from True nofit have wide: "mw < fst (cts (join_words [w]) font)" by simp
      have "closed_when_full cts font mw (G @ [[w]])"
      proof (cases "G = []")
        case True
        then show ?thesis by simp
      next
        case False
        with True full forced show ?thesis
          by (simp add: closed_when_full_snoc open_groups_def)
      qed
      with words ne fitG True wide show ?thesis
        by (simp add: step group_inv_def open_groups_def appended_fit_single appended_fit_Nil)
    qed
  qed
qed

lemma group_fold_inv:
  "group_inv cts font mw ws state \<Longrightarrow>
   group_inv cts font mw (ws @ words) (foldl (group_step cts font mw) state words)"
proof (induction words arbitrary: ws state)
  case Nil
  then show ?case by simp
next
  case (Cons w words)
  from Cons.IH [OF group_step_inv [OF Cons.prems, of w]] show ?case by simp
qed


lemma wrap_step_groups:
  assumes "w \<noteq> []" and "[] \<notin> set g"
  shows "wrap_step cts font mw (map join_words G, join_words g) w =
           (case group_step cts font mw (G, g) w of
              (G', g') \<Rightarrow> (map join_words G', join_words g'))
         \<and> [] \<notin> set (snd (group_step cts font mw (G, g) w))"
proof (cases "g = []")
  case True
  with assms show ?thesis
    by (simp add: wrap_step_def group_step_def Let_def)
next
  case False
  with assms(2) have "join_words g \<noteq> []" by (simp add: join_words_Nil_iff)
  with False assms show ?thesis
    by (simp add: wrap_step_def group_step_def Let_def join_words_snoc)
qed

lemma wrap_fold_groups:
  "list_all (\<lambda>w. w \<noteq> []) words \<Longrightarrow> [] \<notin> set g \<Longrightarrow>
   foldl (wrap_step cts font mw) (map join_words G, join_words g) words =
     (case foldl (group_step cts font mw) (G, g) words of
        (G', g') \<Rightarrow> (map join_words G', join_words g'))"
proof (induction words arbitrary: G g)
  case Nil
  then show ?case by simp
next
  case (Cons w words)
  from Cons.prems have w: "w \<noteq> []" and rest: "list_all (\<lambda>w. w \<noteq> []) words" by simp_all
  obtain G1 g1 where step: "group_step cts font mw (G, g) w = (G1, g1)"
    by (cases "group_step cts font mw (G, g) w")
  from wrap_step_groups [OF w Cons.prems(2), of cts font mw G] step
  have one: "wrap_step cts font mw (map join_words G, join_words g) w
               = (map join_words G1, join_words g1)"
    and ne: "[] \<notin> set g1" by simp_all
  from Cons.IH [OF rest ne, of G1] one step show ?case by simp
qed

lemma closed_when_full_nth:
  "closed_when_full cts font mw Gs \<Longrightarrow> Suc i < length Gs \<Longrightarrow>
   mw < fst (cts (join_words (Gs ! i @ [hd (Gs ! Suc i)])) font)
   \<or> (length (Gs ! i) = 1 \<and> mw < fst (cts (join_words (Gs ! i)) font))"
proof (induction cts font mw Gs arbitrary: i rule: closed_when_full.induct)
  case (3 cts font mw g h rest)
  show ?case
  proof (cases i)
    case 0
    with "3.prems" show ?thesis by simp
  next
    case (Suc j)
    with "3.prems" "3.IH" [of j] show ?thesis by simp
  qed
qed simp_all

lemma group_step_alone:
  assumes mono: "never_narrower cts font"
    and inv: "list_all (oversize_alone cts font mw) (G @ [g])"
    and step: "group_step cts font mw (G, g) w = (G', g')"
  shows "list_all (oversize_alone cts font mw) (G' @ [g'])"
proof -
  have single: "oversize_alone cts font mw [v]" for v
    by (simp add: oversize_alone_def)
  have nil: "oversize_alone cts font mw []"
    by (simp add: oversize_alone_def)
  from inv have G: "list_all (oversize_alone cts font mw) G"
    and g: "oversize_alone cts font mw g" by simp_all
  show ?thesis
  proof (cases "fst (cts (join_words (g @ [w])) font) \<le> mw")
    case True
    with step have eq: "G' = G" "g' = g @ [w]" by (simp_all add: group_step_def)
    have "oversize_alone cts font mw (g @ [w])"
    proof (cases "g = []")
      case True
      then show ?thesis by (simp add: single)
    next
      case False
      then have line: "join_words (g @ [w]) = join_words g @ '' '' @ w"
        by (rule join_words_snoc)
      from mono have "fst (cts w font) \<le> fst (cts (join_words g @ '' '' @ w) font)"
        and left: "fst (cts (join_words g) font) \<le> fst (cts (join_words g @ '' '' @ w) font)"
        unfolding never_narrower_def by blast+
      with True line have w: "fst (cts w font) \<le> mw"
        and whole: "fst (cts (join_words g) font) \<le> mw" by simp_all
      have old: "\<not> mw < fst (cts v font)" if "v \<in> set g" for v
      proof
        assume wide: "mw < fst (cts v font)"
        with g that have "g = [v]" by (simp add: oversize_alone_def)
        with whole wide show False by simp
      qed
      from w old show ?thesis
        by (auto simp: oversize_alone_def)
    qed
    with G eq show ?thesis by simp
  next
    case False
    with step have "(G' = G @ [g] \<and> g' = [w]) \<or> (G' = G @ [[w]] \<and> g' = [])"
      by (auto simp: group_step_def split: if_splits)
    with G g single nil show ?thesis by auto
  qed
qed

lemma group_fold_alone:
  assumes mono: "never_narrower cts font"
  shows "list_all (oversize_alone cts font mw) (G @ [g]) \<Longrightarrow>
         foldl (group_step cts font mw) (G, g) words = (G', g') \<Longrightarrow>
         list_all (oversize_alone cts font mw) (G' @ [g'])"
proof (induction words arbitrary: G g)
  case Nil
  then show ?case by simp
next
  case (Cons w words)
  obtain G1 g1 where step: "group_step cts font mw (G, g) w = (G1, g1)"
    by (cases "group_step cts font mw (G, g) w")
  from group_step_alone [OF mono Cons.prems(1) step]
  have "list_all (oversize_alone cts font mw) (G1 @ [g1])" .
  moreover from Cons.prems(2) step
  have "foldl (group_step cts font mw) (G1, g1) words = (G', g')" by simp
  ultimately show ?case by (rule Cons.IH)
qed

lemma nonempty_words: "list_all (\<lambda>w. w \<noteq> []) (str_split text)"
  using str_split_wordlike [of "text"] by (simp add: list_all_iff wordlike_def)

text \<open>
  Claim C6. The lines that \<open>_wrap_text_to_fit\<close> returns are groups of consecutive
  whole words of the text, joined by single spaces, so no word is split. Within a line,
  every word after the first was appended because the line so far, a space and the word
  measured at most \<open>max_width\<close>. Every line but the last was closed because the line, a
  space and the next word measured more than \<open>max_width\<close>, or because it is a single
  word that measured more than \<open>max_width\<close> by itself. And every word that alone
  measures more than \<open>max_width\<close> is alone on its line, by \<open>never_narrower\<close>: the box
  that Pillow measures for a line is never narrower than the box of one of its words.
\<close>

theorem wrap_is_greedy:
  "\<exists>groups.
      concat groups = str_split text \<and> [] \<notin> set groups
    \<and> wrap_text_to_fit calculate_text_size text font max_width = map join_words groups
    \<and> (\<forall>g \<in> set groups. \<forall>k. 1 < k \<and> k \<le> length g \<longrightarrow>
          fst (calculate_text_size (join_words (take k g)) font) \<le> max_width)
    \<and> (\<forall>i. Suc i < length groups \<longrightarrow>
          max_width < fst (calculate_text_size
                            (join_words (groups ! i) @ '' '' @ hd (groups ! Suc i)) font)
          \<or> (length (groups ! i) = 1
              \<and> max_width < fst (calculate_text_size (join_words (groups ! i)) font)))
    \<and> (never_narrower calculate_text_size font \<longrightarrow>
          (\<forall>g \<in> set groups. \<forall>w \<in> set g.
             max_width < fst (calculate_text_size w font) \<longrightarrow> g = [w]))"
proof -
  let ?cts = calculate_text_size and ?mw = max_width
  obtain G g where run: "foldl (group_step ?cts font ?mw) ([], []) (str_split text) = (G, g)"
    by (cases "foldl (group_step ?cts font ?mw) ([], []) (str_split text)")
  let ?groups = "open_groups (G, g)"
  have "group_inv ?cts font ?mw [] ([], [])"
    by (simp add: group_inv_def open_groups_def appended_fit_Nil)
  from group_fold_inv [OF this, of "str_split text"] run
  have inv: "group_inv ?cts font ?mw (str_split text) (G, g)" by simp
  then have words: "concat G @ g = str_split text" and ne: "[] \<notin> set G"
    and fit: "list_all (appended_fit ?cts font ?mw) (G @ [g])"
    and full: "closed_when_full ?cts font ?mw ?groups"
    by (simp_all add: group_inv_def)
  have "set g \<subseteq> set (str_split text)"
    unfolding words [symmetric] by simp
  with nonempty_words [of "text"] have gne: "[] \<notin> set g"
    by (auto simp: list_all_iff)
  have c1: "concat ?groups = str_split text" using words by (auto simp: open_groups_def)
  have c2: "[] \<notin> set ?groups" using ne by (auto simp: open_groups_def)
  have "foldl (wrap_step ?cts font ?mw) ([], []) (str_split text)
          = (map join_words G, join_words g)"
    using wrap_fold_groups [where words = "str_split text" and g = "[]" and G = "[]"
        and cts = calculate_text_size and font = font and mw = max_width, OF nonempty_words]
      run by simp
  then have c3: "wrap_text_to_fit ?cts text font ?mw = map join_words ?groups"
    using gne by (auto simp: wrap_text_to_fit_def open_groups_def join_words_Nil_iff)
  have c4: "\<forall>grp \<in> set ?groups. \<forall>k. 1 < k \<and> k \<le> length grp \<longrightarrow>
          fst (?cts (join_words (take k grp)) font) \<le> ?mw"
    using fit by (auto simp: open_groups_def appended_fit_def list_all_iff)
  have c5: "\<forall>i. Suc i < length ?groups \<longrightarrow>
          ?mw < fst (?cts (join_words (?groups ! i) @ '' '' @ hd (?groups ! Suc i)) font)
          \<or> (length (?groups ! i) = 1 \<and> ?mw < fst (?cts (join_words (?groups ! i)) font))"
  proof (intro allI impI)
    fix i assume i: "Suc i < length ?groups"
    then have "?groups ! i \<in> set ?groups" by simp
    with c2 have "?groups ! i \<noteq> []" by metis
    then have "join_words (?groups ! i @ [hd (?groups ! Suc i)])
                 = join_words (?groups ! i) @ '' '' @ hd (?groups ! Suc i)"
      by (rule join_words_snoc)
    with closed_when_full_nth [OF full i]
    show "?mw < fst (?cts (join_words (?groups ! i) @ '' '' @ hd (?groups ! Suc i)) font)
          \<or> (length (?groups ! i) = 1 \<and> ?mw < fst (?cts (join_words (?groups ! i)) font))"
      by simp
  qed
  have c6: "\<forall>grp \<in> set ?groups. \<forall>w \<in> set grp. ?mw < fst (?cts w font) \<longrightarrow> grp = [w]"
    if mono: "never_narrower ?cts font"
  proof -
    have "list_all (oversize_alone ?cts font ?mw) ([] @ [[]])"
      by (simp add: oversize_alone_def)
    from group_fold_alone [OF mono this run]
    show ?thesis by (auto simp: open_groups_def oversize_alone_def list_all_iff)
  qed
  from c1 c2 c3 c4 c5 c6 show ?thesis by blast
qed

theorem wrap_is_greedy_witness:
  "never_narrower fixed_pitch 1
   \<and> wrap_text_to_fit fixed_pitch ''aaa bb c dddddddd e'' 1 5
       = [''aaa'', ''bb c'', ''dddddddd'', ''e'']
   \<and> (\<exists>groups.
        concat groups = str_split ''aaa bb c dddddddd e'' \<and> [] \<notin> set groups
      \<and> wrap_text_to_fit fixed_pitch ''aaa bb c dddddddd e'' 1 5 = map join_words groups
      \<and> (\<forall>g \<in> set groups. \<forall>w \<in> set g. 5 < fst (fixed_pitch w 1) \<longrightarrow> g = [w]))"
proof -
  have mono: "never_narrower fixed_pitch 1"
    by (simp add: never_narrower_def fixed_pitch_def)
  have run: "wrap_text_to_fit fixed_pitch ''aaa bb c dddddddd e'' 1 5
       = [''aaa'', ''bb c'', ''dddddddd'', ''e'']"
    by (simp add: wrap_text_to_fit_def wrap_step_def str_split_def isspace_def fixed_pitch_def)
  from wrap_is_greedy [of "''aaa bb c dddddddd e''" fixed_pitch 1 5] mono run
  show ?thesis by blast
qed

subsection \<open>The binary search over font sizes\<close>

lemma font_search_rec:
  "font_search gf cts t mw mh lo hi best =
     (if lo \<le> hi
      then (case probe gf cts t mw mh ((lo + hi) div 2) of
              None \<Rightarrow> font_search gf cts t mw mh lo ((lo + hi) div 2 - 1) best
            | Some (f, ls) \<Rightarrow>
                font_search gf cts t mw mh ((lo + hi) div 2 + 1) hi (Some f, ls, (lo + hi) div 2))
      else best)"
  by (subst font_search.simps) (simp add: probe_def Let_def split: option.splits)

lemma font_search_range:
  "snd (snd (font_search gf cts t mw mh lo hi best)) = snd (snd best)
   \<or> (lo \<le> snd (snd (font_search gf cts t mw mh lo hi best))
      \<and> snd (snd (font_search gf cts t mw mh lo hi best)) \<le> hi)"
proof (induction "nat (hi - lo + 1)" arbitrary: lo hi best rule: less_induct)
  case less
  show ?case
  proof (cases "lo \<le> hi")
    case False
    then show ?thesis by (subst (1 2 3) font_search_rec) simp
  next
    case True
    define s where "s = (lo + hi) div 2"
    from True have s: "lo \<le> s" "s \<le> hi" by (simp_all add: s_def)
    show ?thesis
    proof (cases "probe gf cts t mw mh s")
      case None
      from s have "nat (s - 1 - lo + 1) < nat (hi - lo + 1)" by simp
      from less [OF this, of best] None True s show ?thesis
        by (subst (1 2 3) font_search_rec) (auto simp: s_def [symmetric])
    next
      case (Some p)
      obtain f ls where p: "p = (f, ls)" by (cases p)
      from s have "nat (hi - (s + 1) + 1) < nat (hi - lo + 1)" by simp
      from less [OF this, of "(Some f, ls, s)"] Some p True s show ?thesis
        by (subst (1 2 3) font_search_rec) (auto simp: s_def [symmetric])
    qed
  qed
qed

lemma probe_mono:
  "h1 \<le> h2 \<Longrightarrow> probe gf cts t mw h1 s = Some p \<Longrightarrow> probe gf cts t mw h2 s = Some p"
  by (auto simp: probe_def Let_def split: option.splits if_splits)

lemma font_search_mono:
  assumes "h1 \<le> h2"
  shows "snd (snd b1) \<le> snd (snd b2) \<Longrightarrow> snd (snd b2) \<le> lo \<Longrightarrow>
         snd (snd (font_search gf cts t mw h1 lo hi b1))
           \<le> snd (snd (font_search gf cts t mw h2 lo hi b2))"
proof (induction "nat (hi - lo + 1)" arbitrary: lo hi b1 b2 rule: less_induct)
  case less
  show ?case
  proof (cases "lo \<le> hi")
    case False
    with less.prems show ?thesis by (subst (1 2) font_search_rec) simp
  next
    case True
    define s where "s = (lo + hi) div 2"
    from True have s: "lo \<le> s" "s \<le> hi" by (simp_all add: s_def)
    have down: "nat (s - 1 - lo + 1) < nat (hi - lo + 1)" using s by simp
    have up: "nat (hi - (s + 1) + 1) < nat (hi - lo + 1)" using s by simp
    show ?thesis
    proof (cases "probe gf cts t mw h1 s")
      case (Some p)
      obtain f ls where p: "p = (f, ls)" by (cases p)
      from probe_mono [OF assms Some] have two: "probe gf cts t mw h2 s = Some p" .
      have "snd (snd (font_search gf cts t mw h1 (s + 1) hi (Some f, ls, s)))
              \<le> snd (snd (font_search gf cts t mw h2 (s + 1) hi (Some f, ls, s)))"
        by (rule less.hyps [OF up]) simp_all
      with Some two p True show ?thesis
        by (subst (1 2) font_search_rec) (simp add: s_def [symmetric])
    next
      case None
      show ?thesis
      proof (cases "probe gf cts t mw h2 s")
        case none2: None
        have "snd (snd (font_search gf cts t mw h1 lo (s - 1) b1))
                \<le> snd (snd (font_search gf cts t mw h2 lo (s - 1) b2))"
          by (rule less.hyps [OF down]) (use less.prems in simp_all)
        with None none2 True show ?thesis
          by (subst (1 2) font_search_rec) (simp add: s_def [symmetric])
      next
        case (Some p)
        obtain f ls where p: "p = (f, ls)" by (cases p)
        from font_search_range [of gf cts t mw h1 lo "s - 1" b1] less.prems s
        have one: "snd (snd (font_search gf cts t mw h1 lo (s - 1) b1)) \<le> s" by auto
        from font_search_range [of gf cts t mw h2 "s + 1" hi "(Some f, ls, s)"]
        have two: "s \<le> snd (snd (font_search gf cts t mw h2 (s + 1) hi (Some f, ls, s)))"
          by auto
        from one two None Some p True show ?thesis
          by (subst (1 2) font_search_rec) (simp add: s_def [symmetric])
      qed
    qed
  qed
qed

text \<open>
  Claim C9. For a fixed text and text-area width and two heights \<open>h1 \<le> h2\<close>, the font
  size that \<open>_find_optimal_font_size\<close> returns for \<open>h1\<close> is at most the size it
  returns for \<open>h2\<close>. This holds for every font loader and every text measure.
\<close>

theorem taller_area_never_smaller_font:
  "h1 \<le> h2 \<Longrightarrow>
   snd (snd (find_optimal_font_size get_font calculate_text_size text max_width h1))
     \<le> snd (snd (find_optimal_font_size get_font calculate_text_size text max_width h2))"
  unfolding find_optimal_font_size_def by (rule font_search_mono) simp_all

theorem taller_area_never_smaller_font_witness:
  "(300::int) \<le> 600
   \<and> snd (snd (find_optimal_font_size any_size fixed_pitch
                  ''Top 10 Python Tips for Beginners'' 576 300))
     \<le> snd (snd (find_optimal_font_size any_size fixed_pitch
                  ''Top 10 Python Tips for Beginners'' 576 600))"
  using taller_area_never_smaller_font
    [of 300 600 any_size fixed_pitch "''Top 10 Python Tips for Beginners''" 576]
  by simp

lemma font_search_largest:
  assumes closed: "\<And>s u. 20 \<le> u \<Longrightarrow> u \<le> s \<Longrightarrow> s \<le> 120 \<Longrightarrow>
             probe gf cts t mw mh s \<noteq> None \<Longrightarrow> probe gf cts t mw mh u \<noteq> None"
    and least: "probe gf cts t mw mh 20 \<noteq> None"
  shows "20 \<le> lo \<Longrightarrow> hi \<le> 120 \<Longrightarrow> lo \<le> hi + 1 \<Longrightarrow>
         (\<And>u. 20 \<le> u \<Longrightarrow> u < lo \<Longrightarrow> probe gf cts t mw mh u \<noteq> None) \<Longrightarrow>
         (\<And>u. hi < u \<Longrightarrow> u \<le> 120 \<Longrightarrow> probe gf cts t mw mh u = None) \<Longrightarrow>
         (20 < lo \<Longrightarrow> \<exists>f ls. best = (Some f, ls, lo - 1) \<and> probe gf cts t mw mh (lo - 1) = Some (f, ls)) \<Longrightarrow>
         \<exists>f ls r. font_search gf cts t mw mh lo hi best = (Some f, ls, r)
            \<and> probe gf cts t mw mh r = Some (f, ls) \<and> 20 \<le> r \<and> r \<le> 120
            \<and> (\<forall>u. 20 \<le> u \<and> u \<le> 120 \<and> probe gf cts t mw mh u \<noteq> None \<longrightarrow> u \<le> r)"
proof (induction "nat (hi - lo + 1)" arbitrary: lo hi best rule: less_induct)
  case less
  show ?case
  proof (cases "lo \<le> hi")
    case False
    with less.prems(3) have eq: "lo = hi + 1" by simp
    have "20 < lo"
    proof (rule ccontr)
      assume "\<not> 20 < lo"
      with less.prems(1) eq have "hi < 20" by simp
      from less.prems(5) [OF this] least show False by simp
    qed
    from less.prems(6) [OF this] obtain f ls
      where best: "best = (Some f, ls, lo - 1)"
        and pr: "probe gf cts t mw mh (lo - 1) = Some (f, ls)" by blast
    have top: "\<forall>u. 20 \<le> u \<and> u \<le> 120 \<and> probe gf cts t mw mh u \<noteq> None \<longrightarrow> u \<le> lo - 1"
    proof (intro allI impI)
      fix u assume u: "20 \<le> u \<and> u \<le> 120 \<and> probe gf cts t mw mh u \<noteq> None"
      show "u \<le> lo - 1"
      proof (rule ccontr)
        assume "\<not> u \<le> lo - 1"
        with eq have "hi < u" by simp
        from less.prems(5) [OF this] u show False by simp
      qed
    qed
    have "font_search gf cts t mw mh lo hi best = best"
      using False by (subst font_search_rec) simp
    with best pr top \<open>20 < lo\<close> eq less.prems(2) show ?thesis by simp
  next
    case True
    define s where "s = (lo + hi) div 2"
    from True have s: "lo \<le> s" "s \<le> hi" by (simp_all add: s_def)
    show ?thesis
    proof (cases "probe gf cts t mw mh s")
      case None
      have down: "nat (s - 1 - lo + 1) < nat (hi - lo + 1)" using s by simp
      have above: "probe gf cts t mw mh u = None" if "s - 1 < u" "u \<le> 120" for u
      proof (rule ccontr)
        assume "probe gf cts t mw mh u \<noteq> None"
        from closed [OF _ _ that(2) this, of s] that(1) s less.prems(1) None
        show False by simp
      qed
      have "\<exists>f ls r. font_search gf cts t mw mh lo (s - 1) best = (Some f, ls, r)
            \<and> probe gf cts t mw mh r = Some (f, ls) \<and> 20 \<le> r \<and> r \<le> 120
            \<and> (\<forall>u. 20 \<le> u \<and> u \<le> 120 \<and> probe gf cts t mw mh u \<noteq> None \<longrightarrow> u \<le> r)"
      proof (rule less.hyps [OF down])
        show "20 \<le> lo" by (rule less.prems(1))
        show "s - 1 \<le> 120" using s less.prems(2) by simp
        show "lo \<le> s - 1 + 1" using s by simp
        show "probe gf cts t mw mh u \<noteq> None" if "20 \<le> u" "u < lo" for u
          using that by (rule less.prems(4))
        show "probe gf cts t mw mh u = None" if "s - 1 < u" "u \<le> 120" for u
          using that by (rule above)
        show "\<exists>f ls. best = (Some f, ls, lo - 1) \<and> probe gf cts t mw mh (lo - 1) = Some (f, ls)"
          if "20 < lo" using that by (rule less.prems(6))
      qed
      moreover have "font_search gf cts t mw mh lo hi best
                       = font_search gf cts t mw mh lo (s - 1) best"
        using True None by (subst font_search_rec) (simp add: s_def [symmetric])
      ultimately show ?thesis by simp
    next
      case (Some p)
      obtain f ls where p: "p = (f, ls)" by (cases p)
      have up: "nat (hi - (s + 1) + 1) < nat (hi - lo + 1)" using s by simp
      have below: "probe gf cts t mw mh u \<noteq> None" if "20 \<le> u" "u < s + 1" for u
      proof -
        have "s \<le> 120" using s less.prems(2) by simp
        from closed [OF that(1) _ this, of ] that(2) Some show ?thesis by simp
      qed
      have "\<exists>f' ls' r. font_search gf cts t mw mh (s + 1) hi (Some f, ls, s) = (Some f', ls', r)
            \<and> probe gf cts t mw mh r = Some (f', ls') \<and> 20 \<le> r \<and> r \<le> 120
            \<and> (\<forall>u. 20 \<le> u \<and> u \<le> 120 \<and> probe gf cts t mw mh u \<noteq> None \<longrightarrow> u \<le> r)"
      proof (rule less.hyps [OF up])
        show "20 \<le> s + 1" using s less.prems(1) by simp
        show "hi \<le> 120" by (rule less.prems(2))
        show "s + 1 \<le> hi + 1" using s by simp
        show "probe gf cts t mw mh u \<noteq> None" if "20 \<le> u" "u < s + 1" for u
          using that by (rule below)
        show "probe gf cts t mw mh u = None" if "hi < u" "u \<le> 120" for u
          using that by (rule less.prems(5))
        show "\<exists>f' ls'. (Some f, ls, s) = (Some f', ls', s + 1 - 1)
                \<and> probe gf cts t mw mh (s + 1 - 1) = Some (f', ls')"
          using Some p by simp
      qed
      moreover have "font_search gf cts t mw mh lo hi best
                       = font_search gf cts t mw mh (s + 1) hi (Some f, ls, s)"
        using True Some p by (subst font_search_rec) (simp add: s_def [symmetric])
      ultimately show ?thesis by simp
    qed
  qed
qed

lemma probe_SomeD:
  "probe gf cts t mw mh r = Some (f, ls) \<Longrightarrow>
     gf r = Some f \<and> ls = wrap_text_to_fit cts t f mw"
  by (auto simp: probe_def Let_def split: option.splits if_splits)

text \<open>
  Claim C5, as amended. \<open>fits\<close> at a size says that the font of that size loads and that
  (number of wrapped lines) \<times> (height of ``Ay'') \<times> 1.2 is at most \<open>max_height\<close>.
  If some size in [20, 120] fits, and every size in that range below a fitting one fits
  too, then \<open>_find_optimal_font_size\<close> returns the largest fitting size in [20, 120],
  the font of that size and the wrap of the text in that font.
\<close>

theorem search_returns_largest_fit:
  assumes "\<forall>s u. 20 \<le> u \<and> u \<le> s \<and> s \<le> 120
              \<and> fits get_font calculate_text_size text max_width max_height s
            \<longrightarrow> fits get_font calculate_text_size text max_width max_height u"
    and "\<exists>s. 20 \<le> s \<and> s \<le> 120 \<and> fits get_font calculate_text_size text max_width max_height s"
  shows "\<exists>font r.
           find_optimal_font_size get_font calculate_text_size text max_width max_height
             = (Some font, wrap_text_to_fit calculate_text_size text font max_width, r)
           \<and> get_font r = Some font
           \<and> 20 \<le> r \<and> r \<le> 120
           \<and> fits get_font calculate_text_size text max_width max_height r
           \<and> (\<forall>s. 20 \<le> s \<and> s \<le> 120
                    \<and> fits get_font calculate_text_size text max_width max_height s
                  \<longrightarrow> s \<le> r)"
proof -
  from assms have least: "probe get_font calculate_text_size text max_width max_height 20 \<noteq> None"
    unfolding fits_def by blast
  have "\<exists>f ls r. font_search get_font calculate_text_size text max_width max_height 20 120
                    (None, [], 20) = (Some f, ls, r)
            \<and> probe get_font calculate_text_size text max_width max_height r = Some (f, ls)
            \<and> 20 \<le> r \<and> r \<le> 120
            \<and> (\<forall>u. 20 \<le> u \<and> u \<le> 120
                   \<and> probe get_font calculate_text_size text max_width max_height u \<noteq> None
                 \<longrightarrow> u \<le> r)"
  proof (rule font_search_largest [OF _ least])
    show "probe get_font calculate_text_size text max_width max_height u \<noteq> None"
      if "20 \<le> u" "u \<le> s" "s \<le> 120"
        "probe get_font calculate_text_size text max_width max_height s \<noteq> None" for s u
      using assms(1) that unfolding fits_def by blast
  qed simp_all
  then obtain f ls r where
    res: "font_search get_font calculate_text_size text max_width max_height 20 120
            (None, [], 20) = (Some f, ls, r)"
    and pr: "probe get_font calculate_text_size text max_width max_height r = Some (f, ls)"
    and r: "20 \<le> r" "r \<le> 120"
    and top: "\<forall>u. 20 \<le> u \<and> u \<le> 120
                \<and> probe get_font calculate_text_size text max_width max_height u \<noteq> None
              \<longrightarrow> u \<le> r"
    by blast
  from probe_SomeD [OF pr] have "get_font r = Some f"
    and "ls = wrap_text_to_fit calculate_text_size text f max_width" by simp_all
  with res pr r top show ?thesis
    unfolding find_optimal_font_size_def fits_def by simp
qed


lemma wrap_hi: "wrap_text_to_fit fixed_pitch ''Hi'' s 576 = [''Hi'']"
  by (simp add: wrap_text_to_fit_def wrap_step_def str_split_def isspace_def fixed_pitch_def)

lemma fits_hi: "fits any_size fixed_pitch ''Hi'' 576 60 s = (s \<le> 50)"
  by (simp add: fits_def probe_def any_size_def wrap_hi) (simp add: fixed_pitch_def)

theorem search_returns_largest_fit_witness:
  "fits any_size fixed_pitch ''Hi'' 576 60 20
   \<and> find_optimal_font_size any_size fixed_pitch ''Hi'' 576 60 = (Some 50, [''Hi''], 50)"
proof -
  have h1: "\<forall>s u. 20 \<le> u \<and> u \<le> s \<and> s \<le> 120 \<and> fits any_size fixed_pitch ''Hi'' 576 60 s
       \<longrightarrow> fits any_size fixed_pitch ''Hi'' 576 60 u"
    by (simp add: fits_hi)
  have h2: "\<exists>s. 20 \<le> s \<and> s \<le> 120 \<and> fits any_size fixed_pitch ''Hi'' 576 60 s"
    by (rule exI [of _ 20]) (simp add: fits_hi)
  from search_returns_largest_fit [OF h1 h2] obtain font r where
    res: "find_optimal_font_size any_size fixed_pitch ''Hi'' 576 60
            = (Some font, wrap_text_to_fit fixed_pitch ''Hi'' font 576, r)"
    and font: "any_size r = Some font"
    and fit: "fits any_size fixed_pitch ''Hi'' 576 60 r"
    and top: "\<forall>s. 20 \<le> s \<and> s \<le> 120 \<and> fits any_size fixed_pitch ''Hi'' 576 60 s \<longrightarrow> s \<le> r"
    by blast
  from fit have "r \<le> 50" by (simp add: fits_hi)
  moreover from top have "50 \<le> r" by (simp add: fits_hi)
  ultimately have "r = 50" by simp
  with font have "font = 50" by (simp add: any_size_def)
  with res \<open>r = 50\<close> show ?thesis by (simp add: wrap_hi fits_hi)
qed

text \<open>
  The claim as written fails twice. At a text-area height of 10 no size fits: the search
  returns size 20, which does not fit, with an empty line list although the wrap at size
  20 is one line. With a font whose metrics shrink at size 100 the search returns 25
  although 100 fits.
\<close>

theorem search_not_always_largest_counterexample:
  "find_optimal_font_size any_size fixed_pitch ''Hello world'' 576 10 = (None, [], 20)
   \<and> \<not> fits any_size fixed_pitch ''Hello world'' 576 10 20
   \<and> wrap_text_to_fit fixed_pitch ''Hello world'' 20 576 = [''Hello world'']
   \<and> snd (snd (find_optimal_font_size any_size uneven_pitch ''Hi'' 576 30)) = 25
   \<and> fits any_size uneven_pitch ''Hi'' 576 30 100"
  by code_simp

subsection \<open>A title that overflows at every size\<close>

lemma font_search_all_probes_fail:
  assumes "probe gf cts t mw mh 70 = None" "probe gf cts t mw mh 44 = None"
    "probe gf cts t mw mh 31 = None" "probe gf cts t mw mh 25 = None"
    "probe gf cts t mw mh 22 = None" "probe gf cts t mw mh 20 = None"
  shows "find_optimal_font_size gf cts t mw mh = (None, [], 20)"
  unfolding find_optimal_font_size_def
  using assms by (simp add: font_search_rec)

text \<open>
  Claim C1, as amended. When the title overflows the text area (or no font loads) at
  size 20 and at each larger size the search probes (22, 25, 31, 44, 70),
  \<open>_find_optimal_font_size\<close> returns no font, no lines and size 20, and
  \<open>compose_thumbnail\<close> raises \<open>ValueError\<close> ``Could not fit text in available space''
  (unless normalising the background has already raised).
\<close>

theorem overflow_at_every_probe_raises:
  assumes "\<forall>s \<in> set [70, 44, 31, 25, 22, 20].
             \<not> fits (font_loader pil) (text_measure pil) title text_area_width
                 (canvas_height - text_margin_top * 2) s"
  shows "find_optimal_font_size (font_loader pil) (text_measure pil) title text_area_width
           (canvas_height - text_margin_top * 2) = (None, [], 20)
         \<and> compose_thumbnail st pil background title accent_color logo_image request_id
             = (case resize_background_to_canvas background of
                  Inl e \<Rightarrow> Inl e
                | Inr canvas \<Rightarrow> Inl (ValueError ''Could not fit text in available space''))"
proof -
  have none: "probe (font_loader pil) (text_measure pil) title text_area_width
           (canvas_height - text_margin_top * 2) s = None"
    if "s \<in> set [70, 44, 31, 25, 22, 20]" for s
    using assms that unfolding fits_def by blast
  have layout: "find_optimal_font_size (font_loader pil) (text_measure pil) title text_area_width
           (canvas_height - text_margin_top * 2) = (None, [], 20)"
    by (intro font_search_all_probes_fail none) simp_all
  then show ?thesis
    by (simp add: compose_thumbnail_def Let_def split: sum.splits)
qed

theorem overflow_at_every_probe_raises_witness:
  "\<not> fits (font_loader toy_pillow) (text_measure toy_pillow) long_title text_area_width
       (canvas_height - text_margin_top * 2) 20
   \<and> compose_thumbnail default_settings toy_pillow (Decoded ''RGB'' 1920 1080) long_title
         ''#FFD000'' None None
       = Inl (ValueError ''Could not fit text in available space'')"
proof -
  have h: "\<forall>s \<in> set [70, 44, 31, 25, 22, 20].
       \<not> fits (font_loader toy_pillow) (text_measure toy_pillow) long_title text_area_width
           (canvas_height - text_margin_top * 2) s"
    by code_simp
  have "resize_background_to_canvas (Decoded ''RGB'' 1920 1080)
          = Inr (Resized 1280 720 (Decoded ''RGB'' 1920 1080))"
    by code_simp
  with overflow_at_every_probe_raises [OF h, of default_settings "Decoded ''RGB'' 1920 1080"
      "''#FFD000''" None None] h
  show ?thesis by simp
qed

text \<open>
  The claim as written fails on a 26-word title in a fixed-pitch font: at size 20 the
  wrap has 26 lines, which overflow the 600-pixel text area; the search returns no lines
  and no font, and the composition raises instead of producing a thumbnail.
\<close>

theorem overflowing_title_counterexample:
  "length (wrap_text_to_fit fixed_pitch long_title 20 text_area_width) = 26
   \<and> \<not> fits any_size fixed_pitch long_title text_area_width 600 20
   \<and> find_optimal_font_size any_size fixed_pitch long_title text_area_width 600 = (None, [], 20)
   \<and> compose_thumbnail default_settings toy_pillow (Decoded ''RGB'' 1920 1080) long_title
         ''#FFD000'' None None
       = Inl (ValueError ''Could not fit text in available space'')"
  by code_simp

subsection \<open>The quality search of the encoder\<close>

lemma optimize_jpeg_size_default_steps:
  "optimize_jpeg_size default_settings save m =
     Inr (if int (length (save 92)) \<le> m then save 92
          else if int (length (save 87)) \<le> m then save 87
          else if int (length (save 82)) \<le> m then save 82
          else save 77)"
  by (simp add: optimize_jpeg_size_def default_settings_def optimize_loop.simps Let_def)

text \<open>
  Claim C2 does not hold of the code. With the default settings the loop encodes at
  qualities 92, 87, 82 and 77 and stops, since 72 is below the floor: quality 76 is never
  tried. For an encoder whose output shrinks with the quality and a budget of 76 bytes,
  the quality-76 encoding fits, yet \<open>_optimize_jpeg_size\<close> returns the quality-77
  encoding, which does not; and for a budget nothing meets it returns the quality-77
  encoding, not the floor-quality one.
\<close>

theorem floor_quality_never_tried:
  "optimize_jpeg_size default_settings linear_encoder 76 = Inr (linear_encoder 77)
   \<and> int (length (linear_encoder 76)) \<le> 76
   \<and> \<not> int (length (linear_encoder 77)) \<le> 76
   \<and> optimize_jpeg_size default_settings linear_encoder 10 = Inr (linear_encoder 77)
   \<and> linear_encoder 77 \<noteq> linear_encoder 76"
  by code_simp

subsection \<open>Normalising the background\<close>

text \<open>
  Claim C3 does not hold of the code. The scaled size is computed from the other side of
  the source and the target ratio, not from the source's own ratio: a square
  1024 \<times> 1024 source is resized to 1280 \<times> 576 and then ``cropped'' from row -72,
  which pads it; a 2000 \<times> 1000 source is resized to 1777 \<times> 720, where keeping its
  ratio would give 1440 \<times> 720.
\<close>

theorem background_is_distorted:
  "resize_background_to_canvas (Decoded ''RGB'' 1024 1024)
     = Inr (Cropped 0 (- 72) 1280 648 (Resized 1280 576 (Decoded ''RGB'' 1024 1024)))
   \<and> resize_background_to_canvas (Decoded ''RGB'' 2000 1000)
     = Inr (Cropped 248 0 1528 720 (Resized 1777 720 (Decoded ''RGB'' 2000 1000)))"
  by code_simp

lemma py_int_nonneg: "0 \<le> x \<Longrightarrow> py_int x = \<lfloor>x\<rfloor>"
  by (simp add: py_int_def)

text \<open>
  For every source at least 2 pixels wide and 1 pixel high the result does have the size
  of the canvas, 1280 \<times> 720, also where the crop pads.
\<close>

lemma normalised_size:
  assumes "image_size background = (w, h)" and "2 \<le> w" and "1 \<le> h"
  shows "\<exists>im. resize_background_to_canvas background = Inr im
              \<and> image_size im = (canvas_width, canvas_height)"
proof -
  from assms have wide: "1 \<le> py_int (rat_of_int h * (1280 / 720))"
    by (simp add: py_int_nonneg le_floor_iff)
  have "16 \<le> rat_of_int w * 9" using assms(2) by linarith
  then have tall: "1 \<le> py_int (rat_of_int w / (1280 / 720))"
    using assms by (simp add: py_int_nonneg le_floor_iff)
  from assms wide tall show ?thesis
    by (simp add: resize_background_to_canvas_def canvas_width_def canvas_height_def Let_def
        pil_resize_def pil_crop_def)
qed


subsection \<open>Rounding to doubles\<close>

lemma binary_exponent_le:
  assumes "0 < x"
  shows "2 powi (binary_exponent x) \<le> x"
proof -
  obtain a b where q: "quotient_of x = (a, b)" by (cases "quotient_of x")
  then have b: "0 < b" by (rule quotient_of_denom_pos)
  from q have x: "x = rat_of_int a / rat_of_int b" by (rule quotient_of_div)
  with assms b have a: "0 < a" by (simp add: zero_less_divide_iff)
  define d where "d = bitlen a - bitlen b"
  show ?thesis
  proof (cases "2 powi d \<le> x")
    case True
    with q show ?thesis by (simp add: binary_exponent_def d_def)
  next
    case False
    with q have e: "binary_exponent x = d - 1" by (simp add: binary_exponent_def d_def)
    from bitlen_bounds [OF a] have "2 ^ nat (bitlen a - 1) \<le> a" by simp
    then have "rat_of_int (2 ^ nat (bitlen a - 1)) \<le> rat_of_int a" by (simp only: of_int_le_iff)
    moreover from a have "1 \<le> bitlen a" by (simp add: bitlen_alt_def)
    ultimately have lo: "2 powi (bitlen a - 1) \<le> rat_of_int a"
      by (simp add: power_int_def)
    from bitlen_bounds [OF b] have "b < 2 ^ nat (bitlen b)" by simp
    then have "rat_of_int b < rat_of_int (2 ^ nat (bitlen b))" by (simp only: of_int_less_iff)
    moreover have "0 \<le> bitlen b" by (rule bitlen_nonneg)
    ultimately have hi: "rat_of_int b \<le> 2 powi (bitlen b)"
      by (simp add: power_int_def)
    have "2 powi (d - 1) = (2::rat) powi (bitlen a - 1) / 2 powi (bitlen b)"
      by (simp add: d_def power_int_diff)
    also have "\<dots> \<le> rat_of_int a / 2 powi (bitlen b)"
      using lo by (simp add: divide_right_mono)
    also have "\<dots> \<le> rat_of_int a / rat_of_int b"
      using hi a b by (intro divide_left_mono) simp_all
    finally show ?thesis using e x by simp
  qed
qed

lemma round_half_even_near: "\<bar>rat_of_int (round_half_even q) - q\<bar> \<le> 1 / 2"
proof -
  have "rat_of_int \<lfloor>q\<rfloor> \<le> q" "q < rat_of_int \<lfloor>q\<rfloor> + 1" by linarith+
  then show ?thesis
    by (auto simp: round_half_even_def Let_def)
qed

lemma double_error: "\<bar>double x - x\<bar> \<le> \<bar>x\<bar> / 2 ^ 53"
proof (cases "x = 0")
  case True
  then show ?thesis by (simp add: double_def)
next
  case False
  define ulp :: rat where "ulp = 2 powi (binary_exponent \<bar>x\<bar> - 52)"
  define n where "n = round_half_even (\<bar>x\<bar> / ulp)"
  have ulp: "0 < ulp" by (simp add: ulp_def)
  from False have d: "double x = sgn x * rat_of_int n * ulp"
    by (simp add: double_def Let_def ulp_def n_def)
  have "\<bar>double x - x\<bar> = \<bar>sgn x * (rat_of_int n * ulp - \<bar>x\<bar>)\<bar>"
    by (simp add: d algebra_simps flip: abs_sgn mult_sgn_abs) (metis mult.commute mult_sgn_abs)
  also have "\<dots> = \<bar>rat_of_int n * ulp - \<bar>x\<bar>\<bar>"
    using False by (simp add: abs_mult abs_sgn_eq)
  also have "\<dots> = \<bar>rat_of_int n - \<bar>x\<bar> / ulp\<bar> * ulp"
  proof -
    have "rat_of_int n * ulp - \<bar>x\<bar> = (rat_of_int n - \<bar>x\<bar> / ulp) * ulp"
      using ulp by (simp add: field_simps)
    then show ?thesis using ulp by (simp add: abs_mult)
  qed
  also have "\<dots> \<le> (1 / 2) * ulp"
    using round_half_even_near [of "\<bar>x\<bar> / ulp"] ulp
    by (intro mult_right_mono) (simp_all add: n_def)
  also have "(1 / 2) * ulp = 2 powi (binary_exponent \<bar>x\<bar>) / 2 ^ 53"
    by (simp add: ulp_def power_int_diff)
  also have "\<dots> \<le> \<bar>x\<bar> / 2 ^ 53"
    using binary_exponent_le [of "\<bar>x\<bar>"] False by (simp add: divide_right_mono)
  finally show ?thesis .
qed


lemma double_pos: "0 < x \<Longrightarrow> 0 < double x"
proof -
  assume x: "0 < x"
  have "x / 2 ^ 53 < x" using x by (simp add: field_simps)
  moreover from double_error [of x] x have "\<bar>double x - x\<bar> \<le> x / 2 ^ 53"
    by (simp only: abs_of_pos)
  ultimately have "\<bar>double x - x\<bar> < x" by (rule le_less_trans [rotated])
  then show ?thesis by linarith
qed

lemma double_nonneg: "0 \<le> x \<Longrightarrow> 0 \<le> double x"
  using double_pos [of x] by (cases "x = 0") (simp_all add: double_def)

lemma quotient_perturbed:
  fixes a r n u :: rat
  assumes "0 < a" "0 \<le> n" "0 \<le> u" "u \<le> 1 / 2" "\<bar>r - a\<bar> \<le> a * u"
  shows "0 < r \<and> \<bar>n / r - n / a\<bar> \<le> n / a * (2 * u)"
proof -
  have "a * u \<le> a * (1 / 2)" using assms(1,4) by (intro mult_left_mono) simp_all
  with assms(5) have half: "a / 2 \<le> r" by (simp add: abs_le_iff)
  with assms(1) have r: "0 < r" by simp
  have "n / r - n / a = n * (a - r) / (r * a)"
    using r assms(1) by (simp add: field_simps)
  then have "\<bar>n / r - n / a\<bar> = n * \<bar>a - r\<bar> / (r * a)"
    using r assms(1,2) by (simp add: abs_mult)
  also have "\<dots> \<le> n * (a * u) / (r * a)"
    using assms r by (intro divide_right_mono mult_left_mono) (simp_all add: abs_minus_commute)
  also have "\<dots> = n * u / r"
    using assms(1) by simp
  also have "\<dots> \<le> n * u / (a / 2)"
    using half assms by (intro divide_left_mono) simp_all
  also have "\<dots> = n / a * (2 * u)"
    by simp
  finally show ?thesis using r by simp
qed

lemma rounded_near:
  fixes x q y c u :: rat
  assumes "0 \<le> x" "\<bar>q - x\<bar> \<le> x * c" "\<bar>y - q\<bar> \<le> \<bar>q\<bar> * u" "0 \<le> u"
  shows "\<bar>y - x\<bar> \<le> x * (c + u + c * u)"
proof -
  from assms(1,2) have "\<bar>q\<bar> \<le> x + x * c" by linarith
  then have "\<bar>q\<bar> * u \<le> (x + x * c) * u" using assms(4) by (rule mult_right_mono)
  with assms(2,3) have "\<bar>y - x\<bar> \<le> (x + x * c) * u + x * c" by linarith
  then show ?thesis by (simp add: algebra_simps)
qed

lemma landscape_side:
  fixes a n :: rat
  assumes "0 < a" "0 \<le> n"
  shows "0 < double a \<and> \<bar>double (n / double a) - n / a\<bar> \<le> n / a / 2 ^ 51"
proof -
  define u :: rat where "u = 1 / 2 ^ 53"
  have u: "0 \<le> u" "u \<le> 1 / 2" by (simp_all add: u_def)
  have "\<bar>double a - a\<bar> \<le> a * u"
    using double_error [of a] assms(1) by (simp add: u_def)
  from quotient_perturbed [OF assms u this]
  have r: "0 < double a" and q: "\<bar>n / double a - n / a\<bar> \<le> n / a * (2 * u)" by simp_all
  have e: "\<bar>double (n / double a) - n / double a\<bar> \<le> \<bar>n / double a\<bar> * u"
    using double_error [of "n / double a"] by (simp add: u_def)
  have x0: "0 \<le> n / a" using assms by simp
  from rounded_near [OF x0 q e u(1)]
  have "\<bar>double (n / double a) - n / a\<bar> \<le> n / a * (2 * u + u + 2 * u * u)"
    by (simp add: algebra_simps)
  also have "\<dots> \<le> n / a * (1 / 2 ^ 51)"
    using assms by (intro mult_left_mono) (simp_all add: u_def)
  finally show ?thesis using r by simp
qed

lemma portrait_side:
  fixes a n :: rat
  assumes "0 < a" "0 \<le> n"
  shows "\<bar>double (n * double a) - n * a\<bar> \<le> n * a / 2 ^ 51"
proof -
  define u :: rat where "u = 1 / 2 ^ 53"
  have u: "0 \<le> u" by (simp add: u_def)
  have "\<bar>double a - a\<bar> \<le> a * u"
    using double_error [of a] assms(1) by (simp add: u_def)
  then have "n * \<bar>double a - a\<bar> \<le> n * (a * u)"
    using assms(2) by (rule mult_left_mono)
  then have q: "\<bar>n * double a - n * a\<bar> \<le> n * a * u"
    using assms(2) by (simp add: abs_mult flip: right_diff_distrib)
  have e: "\<bar>double (n * double a) - n * double a\<bar> \<le> \<bar>n * double a\<bar> * u"
    using double_error [of "n * double a"] by (simp add: u_def)
  have x0: "0 \<le> n * a" using assms by simp
  from rounded_near [OF x0 q e u]
  have "\<bar>double (n * double a) - n * a\<bar> \<le> n * a * (u + u + u * u)"
    by (simp add: algebra_simps)
  also have "\<dots> \<le> n * a * (1 / 2 ^ 51)"
    using assms by (intro mult_left_mono) (simp_all add: u_def)
  finally show ?thesis by simp
qed

lemma floor_near_ratio:
  fixes p d :: int and y :: rat
  assumes "0 < d" and "\<bar>y - rat_of_int p / rat_of_int d\<bar> < 1 / rat_of_int d"
  shows "d * \<lfloor>y\<rfloor> \<le> p \<and> p - d \<le> d * \<lfloor>y\<rfloor>"
proof -
  from assms(1) have d: "0 < rat_of_int d" by simp
  from assms(2) have "y * rat_of_int d < rat_of_int p + 1" "rat_of_int p - 1 < y * rat_of_int d"
    using d by (simp_all add: abs_less_iff field_simps)
  moreover have "rat_of_int \<lfloor>y\<rfloor> \<le> y" "y < rat_of_int \<lfloor>y\<rfloor> + 1"
    by linarith+
  then have "rat_of_int \<lfloor>y\<rfloor> * rat_of_int d \<le> y * rat_of_int d"
    "y * rat_of_int d < (rat_of_int \<lfloor>y\<rfloor> + 1) * rat_of_int d"
    using d by (simp_all add: mult_right_mono)
  ultimately have "rat_of_int (\<lfloor>y\<rfloor> * d) < rat_of_int (p + 1)"
    and "rat_of_int (p - 1) < rat_of_int ((\<lfloor>y\<rfloor> + 1) * d)"
    by simp_all
  then have "\<lfloor>y\<rfloor> * d < p + 1" and "p - 1 < (\<lfloor>y\<rfloor> + 1) * d"
    by (simp_all only: of_int_less_iff)
  then show ?thesis by (simp add: algebra_simps)
qed


subsection \<open>Resizing the logo\<close>

lemma small_over:
  fixes P W :: rat
  assumes "P < 2 ^ 51" and "0 < W"
  shows "P / W / 2 ^ 51 < 1 / W"
proof -
  from assms(1) have "P / 2 ^ 51 < 1" by simp
  then have "P / 2 ^ 51 / W < 1 / W" using assms(2) by (rule divide_strict_right_mono)
  moreover have "P / W / 2 ^ 51 = P / 2 ^ 51 / W" by simp
  ultimately show ?thesis by (simp only:)
qed

lemma logo_max_width_eq: "logo_max_width = 230"
  by code_simp

lemma logo_max_height_eq: "py_int (double (rat_of_int canvas_height * double 0.15)) = 108"
  by code_simp

lemma process_logo_try_size:
  assumes "image_open logo_data = Inr opened"
    and "(if image_mode opened \<noteq> ''RGBA'' then image_convert opened ''RGBA''
          else Inr opened) = Inr logo"
    and "image_size logo = (w, h)" and "0 < w" and "0 < h"
  shows "process_logo_try image_open image_convert logo_data =
           (if w > h
            then pil_resize logo (min 230 w,
                   \<lfloor>double (rat_of_int (min 230 w) / double (rat_of_int w / rat_of_int h))\<rfloor>)
            else pil_resize logo
                   (\<lfloor>double (rat_of_int (min 108 h) * double (rat_of_int w / rat_of_int h))\<rfloor>,
                    min 108 h))"
proof -
  have r: "0 < double (rat_of_int w / rat_of_int h)"
    using assms(4,5) by (intro double_pos) simp
  have "0 \<le> rat_of_int (min 230 w) / double (rat_of_int w / rat_of_int h)"
    using r assms(4) by simp
  then have a: "0 \<le> double (rat_of_int (min 230 w) / double (rat_of_int w / rat_of_int h))"
    by (rule double_nonneg)
  have "0 \<le> rat_of_int (min 108 h) * double (rat_of_int w / rat_of_int h)"
    using r assms(5) by simp
  then have b: "0 \<le> double (rat_of_int (min 108 h) * double (rat_of_int w / rat_of_int h))"
    by (rule double_nonneg)
  from r have nz: "double (rat_of_int w / rat_of_int h) \<noteq> 0" by simp
  show ?thesis
    unfolding process_logo_try_def logo_max_height_eq logo_max_width_eq
    using assms(1,2,3,5) nz py_int_nonneg [OF a] py_int_nonneg [OF b]
    by (simp add: Let_def)
qed

text \<open>
  Claim C7. For a logo that decodes (and converts to RGBA) with positive width \<open>w\<close> and
  height \<open>h\<close>, both below \<open>2 ^ 31\<close> as Pillow's sizes are: when \<open>w > h\<close> the width is
  clamped to \<open>logo_max_width\<close> (18\% of the canvas width, 230) and otherwise the height
  to 15\% of the canvas height (108); the clamp is a minimum with the original side, so
  neither side of the processed logo exceeds the original's; and the derived side,
  computed in doubles and truncated, is within one pixel of the value that keeps the
  aspect ratio. \<open>_process_logo\<close> returns \<open>None\<close> only if that value is at most 1, and
  always if it is below 1: then the derived side is 0 and \<open>Image.resize\<close> raises.
\<close>

theorem logo_keeps_aspect_and_never_grows:
  assumes "image_open logo_data = Inr opened"
    and "(if image_mode opened \<noteq> ''RGBA'' then image_convert opened ''RGBA''
          else Inr opened) = Inr logo"
    and "image_size logo = (w, h)" and "0 < w" and "0 < h" and "w < 2 ^ 31" and "h < 2 ^ 31"
  shows "(\<forall>out. process_logo image_open image_convert logo_data = Some out \<longrightarrow>
            (\<exists>new_width new_height.
               out = Resized new_width new_height logo
               \<and> 1 \<le> new_width \<and> new_width \<le> w \<and> 1 \<le> new_height \<and> new_height \<le> h
               \<and> (if w > h
                   then new_width = min logo_max_width w
                        \<and> \<bar>rat_of_int new_height
                             - rat_of_int new_width * rat_of_int h / rat_of_int w\<bar> \<le> 1
                   else new_height
                          = min (py_int (double (rat_of_int canvas_height * double 0.15))) h
                        \<and> \<bar>rat_of_int new_width
                             - rat_of_int new_height * rat_of_int w / rat_of_int h\<bar> \<le> 1)))
         \<and> (process_logo image_open image_convert logo_data = None \<longrightarrow>
              (if w > h then min logo_max_width w * h \<le> w
               else min (py_int (double (rat_of_int canvas_height * double 0.15))) h * w \<le> h))
         \<and> ((if w > h then min logo_max_width w * h < w
              else min (py_int (double (rat_of_int canvas_height * double 0.15))) h * w < h)
             \<longrightarrow> process_logo image_open image_convert logo_data = None)"
proof (cases "w > h")
  case True
  define nw where "nw = min 230 w"
  define y where "y = double (rat_of_int nw / double (rat_of_int w / rat_of_int h))"
  define nh where "nh = \<lfloor>y\<rfloor>"
  have nw: "1 \<le> nw" "nw \<le> w" "nw \<le> 230" using assms(4) by (simp_all add: nw_def)
  have p: "0 \<le> nw * h" "nw * h < 2 ^ 51"
  proof -
    show "0 \<le> nw * h" using nw assms(5) by simp
    have "nw * h \<le> 230 * h" using nw assms(5) by (intro mult_right_mono) simp_all
    with assms(7) show "nw * h < 2 ^ 51" by simp
  qed
  have exact: "rat_of_int nw / (rat_of_int w / rat_of_int h) = rat_of_int (nw * h) / rat_of_int w"
    by simp
  have "\<bar>y - rat_of_int nw / (rat_of_int w / rat_of_int h)\<bar>
          \<le> rat_of_int nw / (rat_of_int w / rat_of_int h) / 2 ^ 51"
    unfolding y_def using assms(4,5) nw by (intro landscape_side [THEN conjunct2]) simp_all
  then have "\<bar>y - rat_of_int (nw * h) / rat_of_int w\<bar> \<le> rat_of_int (nw * h) / rat_of_int w / 2 ^ 51"
    unfolding exact .
  also have "\<dots> < 1 / rat_of_int w"
  proof (rule small_over)
    from p(2) have "rat_of_int (nw * h) < rat_of_int (2 ^ 51)" by (simp only: of_int_less_iff)
    then show "rat_of_int (nw * h) < 2 ^ 51" by simp
    show "0 < rat_of_int w" using assms(4) by simp
  qed
  finally have "w * nh \<le> nw * h \<and> nw * h - w \<le> w * nh"
    unfolding nh_def using assms(4) by (intro floor_near_ratio) simp_all
  then have lo: "w * nh \<le> nw * h" and hi: "nw * h - w \<le> w * nh" by simp_all
  have "nw * h \<le> w * h" using nw assms(5) by (intro mult_right_mono) simp_all
  with lo have "w * nh \<le> w * h" by simp
  with assms(4) have nh_le: "nh \<le> h" by simp
  have near: "\<bar>rat_of_int nh - rat_of_int nw * rat_of_int h / rat_of_int w\<bar> \<le> 1"
  proof -
    from lo hi have "rat_of_int (w * nh) \<le> rat_of_int (nw * h)"
      "rat_of_int (nw * h - w) \<le> rat_of_int (w * nh)" by (simp_all only: of_int_le_iff)
    then show ?thesis using assms(4) by (simp add: abs_le_iff field_simps)
  qed
  have none1: "nw * h \<le> w" if "nh < 1"
  proof -
    from that assms(4) have "w * nh \<le> 0" by (simp add: mult_le_0_iff)
    with hi show ?thesis by simp
  qed
  have none2: "nh < 1" if "nw * h < w"
  proof (rule ccontr)
    assume "\<not> nh < 1"
    then have "w * 1 \<le> w * nh" using assms(4) by (intro mult_left_mono) simp_all
    with lo that show False by simp
  qed
  have run: "process_logo_try image_open image_convert logo_data = pil_resize logo (nw, nh)"
    using process_logo_try_size [where image_open = image_open and logo_data = logo_data
        and image_convert = image_convert, OF assms(1-5)] True
    by (simp add: nw_def nh_def y_def)
  show ?thesis
    unfolding logo_max_height_eq logo_max_width_eq process_logo_def run
    using True nw nh_le near none1 none2
    by (auto simp: pil_resize_def nw_def [symmetric])
next
  case False
  define nh where "nh = min 108 h"
  define y where "y = double (rat_of_int nh * double (rat_of_int w / rat_of_int h))"
  define nw where "nw = \<lfloor>y\<rfloor>"
  have nh: "1 \<le> nh" "nh \<le> h" "nh \<le> 108" using assms(5) by (simp_all add: nh_def)
  have p: "0 \<le> nh * w" "nh * w < 2 ^ 51"
  proof -
    show "0 \<le> nh * w" using nh assms(4) by simp
    have "nh * w \<le> 108 * w" using nh assms(4) by (intro mult_right_mono) simp_all
    with assms(6) show "nh * w < 2 ^ 51" by simp
  qed
  have exact: "rat_of_int nh * (rat_of_int w / rat_of_int h) = rat_of_int (nh * w) / rat_of_int h"
    by simp
  have "\<bar>y - rat_of_int nh * (rat_of_int w / rat_of_int h)\<bar>
          \<le> rat_of_int nh * (rat_of_int w / rat_of_int h) / 2 ^ 51"
    unfolding y_def using assms(4,5) nh by (intro portrait_side) simp_all
  then have "\<bar>y - rat_of_int (nh * w) / rat_of_int h\<bar> \<le> rat_of_int (nh * w) / rat_of_int h / 2 ^ 51"
    unfolding exact .
  also have "\<dots> < 1 / rat_of_int h"
  proof (rule small_over)
    from p(2) have "rat_of_int (nh * w) < rat_of_int (2 ^ 51)" by (simp only: of_int_less_iff)
    then show "rat_of_int (nh * w) < 2 ^ 51" by simp
    show "0 < rat_of_int h" using assms(5) by simp
  qed
  finally have "h * nw \<le> nh * w \<and> nh * w - h \<le> h * nw"
    unfolding nw_def using assms(5) by (intro floor_near_ratio) simp_all
  then have lo: "h * nw \<le> nh * w" and hi: "nh * w - h \<le> h * nw" by simp_all
  have "nh * w \<le> h * w" using nh assms(4) by (intro mult_right_mono) simp_all
  with lo have "h * nw \<le> h * w" by simp
  with assms(5) have nw_le: "nw \<le> w" by simp
  have near: "\<bar>rat_of_int nw - rat_of_int nh * rat_of_int w / rat_of_int h\<bar> \<le> 1"
  proof -
    from lo hi have "rat_of_int (h * nw) \<le> rat_of_int (nh * w)"
      "rat_of_int (nh * w - h) \<le> rat_of_int (h * nw)" by (simp_all only: of_int_le_iff)
    then show ?thesis using assms(5) by (simp add: abs_le_iff field_simps)
  qed
  have none1: "nh * w \<le> h" if "nw < 1"
  proof -
    from that assms(5) have "h * nw \<le> 0" by (simp add: mult_le_0_iff)
    with hi show ?thesis by simp
  qed
  have none2: "nw < 1" if "nh * w < h"
  proof (rule ccontr)
    assume "\<not> nw < 1"
    then have "h * 1 \<le> h * nw" using assms(5) by (intro mult_left_mono) simp_all
    with lo that show False by simp
  qed
  have run: "process_logo_try image_open image_convert logo_data = pil_resize logo (nw, nh)"
    using process_logo_try_size [where image_open = image_open and logo_data = logo_data
        and image_convert = image_convert, OF assms(1-5)] False
    by (simp add: nw_def nh_def y_def)
  show ?thesis
    unfolding logo_max_height_eq logo_max_width_eq process_logo_def run
    using False nh nw_le near none1 none2
    by (auto simp: pil_resize_def nh_def [symmetric])
qed


theorem logo_keeps_aspect_and_never_grows_witness:
  "toy_open ''logo.png'' = Inr (Decoded ''P'' 276 126)
   \<and> (if image_mode (Decoded ''P'' 276 126) \<noteq> ''RGBA''
       then toy_convert (Decoded ''P'' 276 126) ''RGBA'' else Inr (Decoded ''P'' 276 126))
      = Inr (Converted ''RGBA'' (Decoded ''P'' 276 126))
   \<and> image_size (Converted ''RGBA'' (Decoded ''P'' 276 126)) = (276, 126)
   \<and> process_logo toy_open toy_convert ''logo.png''
      = Some (Resized 230 104 (Converted ''RGBA'' (Decoded ''P'' 276 126)))
   \<and> \<bar>rat_of_int 104 - rat_of_int 230 * rat_of_int 126 / rat_of_int 276\<bar> \<le> 1"
proof -
  have h1: "toy_open ''logo.png'' = Inr (Decoded ''P'' 276 126)"
    by (simp add: toy_open_def)
  have h2: "(if image_mode (Decoded ''P'' 276 126) \<noteq> ''RGBA''
       then toy_convert (Decoded ''P'' 276 126) ''RGBA'' else Inr (Decoded ''P'' 276 126))
      = Inr (Converted ''RGBA'' (Decoded ''P'' 276 126))"
    by (simp add: toy_convert_def)
  have h3: "image_size (Converted ''RGBA'' (Decoded ''P'' 276 126)) = (276, 126)"
    by simp
  have run: "process_logo toy_open toy_convert ''logo.png''
      = Some (Resized 230 104 (Converted ''RGBA'' (Decoded ''P'' 276 126)))"
    by code_simp
  have "\<forall>out. process_logo toy_open toy_convert ''logo.png'' = Some out \<longrightarrow>
          (\<exists>new_width new_height.
             out = Resized new_width new_height (Converted ''RGBA'' (Decoded ''P'' 276 126))
             \<and> \<bar>rat_of_int new_height
                  - rat_of_int new_width * rat_of_int 126 / rat_of_int 276\<bar> \<le> 1)"
    using logo_keeps_aspect_and_never_grows
      [where image_open = toy_open and logo_data = "''logo.png''"
         and image_convert = toy_convert, OF h1 h2 h3]
    by simp blast
  with run have "\<bar>rat_of_int 104 - rat_of_int 230 * rat_of_int 126 / rat_of_int 276\<bar> \<le> 1"
    by auto
  with h1 h2 h3 run show ?thesis by simp
qed

lemma logo_rounding_examples:
  "process_logo (\<lambda>data. Inr (Decoded ''RGBA'' 9 7)) toy_convert ''9x7''
     = Some (Resized 9 6 (Decoded ''RGBA'' 9 7))
   \<and> process_logo (\<lambda>data. Inr (Decoded ''RGBA'' 122 216)) toy_convert ''122x216''
     = Some (Resized 60 108 (Decoded ''RGBA'' 122 216))
   \<and> process_logo (\<lambda>data. Inr (Decoded ''RGBA'' 1 49)) toy_convert ''1x49'' = None
   \<and> process_logo (\<lambda>data. Inr (Decoded ''RGBA'' 1 50)) toy_convert ''1x50''
     = Some (Resized 1 50 (Decoded ''RGBA'' 1 50))"
  by code_simp


subsection \<open>A logo that fails is left out\<close>

text \<open>
  Claim C8. Whatever the logo bytes, \<open>_process_logo\<close> returns \<open>None\<close> whenever the body
  of its \<open>try\<close> block raises, and never raises itself; and then \<open>compose_thumbnail\<close>
  does exactly what it does without a logo, so it produces the thumbnail without the logo
  whenever the logo-less composition succeeds.
\<close>

theorem failed_logo_is_left_out:
  assumes "process_logo_try (opener pil) (converter pil) logo_data = Inl e"
  shows "process_logo (opener pil) (converter pil) logo_data = None
         \<and> compose_thumbnail st pil background title accent_color (Some logo_data) request_id
            = compose_thumbnail st pil background title accent_color None request_id"
proof -
  from assms have none: "process_logo (opener pil) (converter pil) logo_data = None"
    by (simp add: process_logo_def)
  then have eq: "add_logo_if_provided pil canvas (Some logo_data)
               = add_logo_if_provided pil canvas None" for canvas :: "'a canvas"
    by (simp add: add_logo_if_provided_def)
  have "compose_thumbnail st pil background title accent_color (Some logo_data) request_id
            = compose_thumbnail st pil background title accent_color None request_id"
    unfolding compose_thumbnail_def eq by (rule refl)
  with none show ?thesis
    by (rule conjI)
qed

theorem failed_logo_is_left_out_witness:
  "process_logo_try (opener toy_pillow) (converter toy_pillow) ''not an image''
     = Inl (OSError ''cannot identify image file'')
   \<and> process_logo (opener toy_pillow) (converter toy_pillow) ''not an image'' = None
   \<and> compose_thumbnail default_settings toy_pillow (Decoded ''RGB'' 1920 1080)
        ''Python Tips'' ''#FFD000'' (Some ''not an image'') (Some ''req7'')
      = Inr (''req7_thumbnail.jpg'', linear_encoder 92)"
proof -
  have h: "process_logo_try (opener toy_pillow) (converter toy_pillow) ''not an image''
     = Inl (OSError ''cannot identify image file'')"
    by (simp add: process_logo_try_def toy_pillow_def toy_open_def)
  have "compose_thumbnail default_settings toy_pillow (Decoded ''RGB'' 1920 1080)
        ''Python Tips'' ''#FFD000'' None (Some ''req7'')
      = Inr (''req7_thumbnail.jpg'', linear_encoder 92)"
    by code_simp
  with failed_logo_is_left_out [OF h, of default_settings "Decoded ''RGB'' 1920 1080"
     "''Python Tips''" "''#FFD000''" "Some ''req7''"] h
  show ?thesis by simp
qed


end
